theory Spec2Isabelle
  imports Complex_Main "HOL-Library.Log_Nat" "HOL-Library.Sublist"
begin

section \<open>Exceptions\<close>

text \<open>
  A statement that can raise returns either the exception or its value; the exceptions
  are those that the operations of the program raise.
\<close>

datatype error =
    ValueError | IndexError | OverflowError | ZeroDivisionError
  | FileNotFoundError | FileExistsError | NotADirectoryError | IsADirectoryError | OSError
  | CalledProcessError int

definition and_then :: "error + 'a \<Rightarrow> ('a \<Rightarrow> error + 'b) \<Rightarrow> error + 'b" where
  \<comment> \<open>sequencing of two statements: an exception in the first skips the second\<close>
  "and_then r f = (case r of Inl e \<Rightarrow> Inl e | Inr v \<Rightarrow> f v)"


section \<open>Python floats\<close>

text \<open>
  \<^verbatim>\<open>gen_icon.py\<close> mixes Python integers (unbounded) with Python floats (IEEE binary64,
  round to nearest, ties to even).  A float is kept as an integer mantissa and a binary
  exponent; every operation computes the exact result as a ratio of integers and rounds
  it to 53 significant bits.

  The largest binary64 value is just below \<open>2^1024\<close>.  Converting an \<^verbatim>\<open>int\<close> to a float
  and dividing two \<^verbatim>\<open>int\<close>s raise \<^verbatim>\<open>OverflowError\<close> when the rounded result reaches
  \<open>2^1024\<close>: \<open>float_of_int\<close> and \<open>truediv\<close> return the exception then.  A product or a
  sum of two floats raises nothing: a result that reaches \<open>2^1024\<close> is an infinity in
  Python and is kept here as a value \<open>x\<close> with \<open>overflows x\<close>.  In this program only two
  results can be one: the blur radius \<^verbatim>\<open>1.2 * supersample\<close>, which is handed to the imaging
  library without further arithmetic, and the sum in a gradient channel, on which
  \<^verbatim>\<open>int\<close> raises \<^verbatim>\<open>OverflowError\<close>.  The subnormal range (below \<open>2^-1022\<close>) is not
  modelled.
\<close>

datatype double = Double (mantissa: int) (exponent: int)

definition round_half_even :: "int \<Rightarrow> int \<Rightarrow> int" where
  \<comment> \<open>the integer nearest to \<open>n / d\<close> for \<open>d > 0\<close>, a tie going to the even neighbour\<close>
  "round_half_even n d =
     (let q = n div d; r = n mod d
      in if d < 2 * r \<or> (2 * r = d \<and> odd q) then q + 1 else q)"

definition binade :: "int \<Rightarrow> int \<Rightarrow> int" where
  \<comment> \<open>for \<open>n > 0\<close> and \<open>d > 0\<close>: the \<open>k\<close> with \<open>2^k \<le> n / d < 2^(k+1)\<close>\<close>
  "binade n d =
     (let k = bitlen n - bitlen d
      in if (if 0 \<le> k then d * 2 ^ nat k \<le> n else d \<le> n * 2 ^ nat (- k))
         then k else k - 1)"

definition round_ratio :: "int \<Rightarrow> int \<Rightarrow> double" where
  \<comment> \<open>the float nearest to \<open>n / d\<close> for \<open>d > 0\<close>\<close>
  "round_ratio n d =
     (if n = 0 then Double 0 0
      else let e = binade \<bar>n\<bar> d - 52;
               m = (if 0 \<le> e then round_half_even \<bar>n\<bar> (d * 2 ^ nat e)
                    else round_half_even (\<bar>n\<bar> * 2 ^ nat (- e)) d)
           in Double (sgn n * m) e)"

definition round_dyadic :: "int \<Rightarrow> int \<Rightarrow> double" where
  \<comment> \<open>the float nearest to \<open>m * 2^e\<close>\<close>
  "round_dyadic m e =
     (if 0 \<le> e then round_ratio (m * 2 ^ nat e) 1 else round_ratio m (2 ^ nat (- e)))"

definition float_val :: "int \<Rightarrow> double" where
  \<comment> \<open>the float nearest to an \<^verbatim>\<open>int\<close>\<close>
  "float_val i = round_ratio i 1"

definition overflows :: "double \<Rightarrow> bool" where
  \<comment> \<open>the magnitude is \<open>2^1024\<close> or more: beyond the largest binary64 value\<close>
  "overflows x =
     (if 0 \<le> exponent x then 2 ^ 1024 \<le> \<bar>mantissa x\<bar> * 2 ^ nat (exponent x)
      else 2 ^ 1024 * 2 ^ nat (- exponent x) \<le> \<bar>mantissa x\<bar>)"

definition float_of_int :: "int \<Rightarrow> error + double" where
  \<comment> \<open>the implicit conversion of an \<^verbatim>\<open>int\<close> operand in mixed arithmetic:
      \<^verbatim>\<open>OverflowError\<close> (int too large to convert to float) when the nearest float would
      reach \<open>2^1024\<close>\<close>
  "float_of_int i = (if overflows (float_val i) then Inl OverflowError else Inr (float_val i))"

definition truediv :: "int \<Rightarrow> int \<Rightarrow> error + double" where
  \<comment> \<open>\<^verbatim>\<open>a / b\<close> on two ints, correctly rounded: \<^verbatim>\<open>ZeroDivisionError\<close> for \<open>b = 0\<close>,
      \<^verbatim>\<open>OverflowError\<close> (integer division result too large for a float) when the rounded
      quotient would reach \<open>2^1024\<close>\<close>
  "truediv a b =
     (if b = 0 then Inl ZeroDivisionError
      else let q = round_ratio (sgn b * a) \<bar>b\<bar>
           in if overflows q then Inl OverflowError else Inr q)"

definition fmul :: "double \<Rightarrow> double \<Rightarrow> double" where
  "fmul x y = round_dyadic (mantissa x * mantissa y) (exponent x + exponent y)"

definition fadd :: "double \<Rightarrow> double \<Rightarrow> double" where
  "fadd x y =
     (let e = min (exponent x) (exponent y)
      in round_dyadic (mantissa x * 2 ^ nat (exponent x - e)
                       + mantissa y * 2 ^ nat (exponent y - e)) e)"

definition fneg :: "double \<Rightarrow> double" where
  "fneg x = Double (- mantissa x) (exponent x)"

definition fsub :: "double \<Rightarrow> double \<Rightarrow> double" where
  "fsub x y = fadd x (fneg y)"

definition trunc :: "double \<Rightarrow> int" where
  \<comment> \<open>the value of \<^verbatim>\<open>int(x)\<close>: rounds toward zero\<close>
  "trunc x =
     (if 0 \<le> exponent x then mantissa x * 2 ^ nat (exponent x)
      else sgn (mantissa x) * (\<bar>mantissa x\<bar> div 2 ^ nat (- exponent x)))"

definition int_of_float :: "double \<Rightarrow> error + int" where
  \<comment> \<open>\<^verbatim>\<open>int(x)\<close>: an infinity is an \<^verbatim>\<open>OverflowError\<close>\<close>
  "int_of_float x = (if overflows x then Inl OverflowError else Inr (trunc x))"

definition fle :: "double \<Rightarrow> double \<Rightarrow> bool" where
  \<comment> \<open>\<^verbatim>\<open>x <= y\<close>\<close>
  "fle x y =
     (let e = min (exponent x) (exponent y)
      in mantissa x * 2 ^ nat (exponent x - e) \<le> mantissa y * 2 ^ nat (exponent y - e))"

text \<open>The float literals of the source, each the binary64 value nearest to the decimal.\<close>

definition lit_0_41 :: double where "lit_0_41 = Double 7385903388887613 (- 54)"
definition lit_0_295 :: double where "lit_0_295 = Double 5314247560297185 (- 54)"
definition lit_0_01 :: double where "lit_0_01 = Double 5764607523034235 (- 59)"
definition lit_0_05 :: double where "lit_0_05 = Double 3602879701896397 (- 56)"
definition lit_0_23 :: double where "lit_0_23 = Double 8286623314361713 (- 55)"
definition lit_0_21 :: double where "lit_0_21 = Double 7566047373982433 (- 55)"
definition lit_1_2 :: double where "lit_1_2 = Double 5404319552844595 (- 52)"
definition lit_0_012 :: double where "lit_0_012 = Double 3458764513820541 (- 58)"


section \<open>The imaging library\<close>

text \<open>
  Pillow is not part of the repository.  An image is the record of how it was built: one
  constructor for each library call the program makes.  What the library promises about
  an image (its mode, its pixel dimensions, the pixels stored through the pixel-access
  object) is read off that record; blurring and resampling stay uninterpreted.  The
  argument checks of the library that can raise are written out; its memory limits are
  not modelled.
\<close>

datatype mode = RGBA | L

datatype resampling = BILINEAR | LANCZOS

type_synonym rgba = "int \<times> int \<times> int \<times> int"

datatype ink = Gray int | Color rgba

datatype image =
    New mode int int ink
  | PutPixel image int int rgba
  | Ellipse image "double list" ink
  | GaussianBlur double image
  | Resize image int int resampling
  | Composite image image image
  | AlphaComposite image image

fun mode_of :: "image \<Rightarrow> mode" where
  "mode_of (New m w h c) = m"
| "mode_of (PutPixel im x y v) = mode_of im"
| "mode_of (Ellipse im box c) = mode_of im"
| "mode_of (GaussianBlur r im) = mode_of im"
| "mode_of (Resize im w h f) = mode_of im"
| "mode_of (Composite im1 im2 msk) = mode_of im2"
| "mode_of (AlphaComposite dst src) = mode_of dst"

fun size_of :: "image \<Rightarrow> int \<times> int" where
  "size_of (New m w h c) = (w, h)"
| "size_of (PutPixel im x y v) = size_of im"
| "size_of (Ellipse im box c) = size_of im"
| "size_of (GaussianBlur r im) = size_of im"
| "size_of (Resize im w h f) = (w, h)"
| "size_of (Composite im1 im2 msk) = size_of im2"
| "size_of (AlphaComposite dst src) = size_of dst"

definition image_new :: "mode \<Rightarrow> int \<times> int \<Rightarrow> ink \<Rightarrow> error + image" where
  \<comment> \<open>\<^verbatim>\<open>Image.new(mode, size, color)\<close>: a negative dimension is a \<^verbatim>\<open>ValueError\<close>\<close>
  "image_new m sz c =
     (if fst sz < 0 \<or> snd sz < 0 then Inl ValueError else Inr (New m (fst sz) (snd sz) c))"

definition clip8 :: "int \<Rightarrow> int" where
  "clip8 v = (if v < 0 then 0 else if 255 < v then 255 else v)"

definition putpixel :: "image \<Rightarrow> int \<times> int \<Rightarrow> rgba \<Rightarrow> error + image" where
  \<comment> \<open>\<^verbatim>\<open>px[x, y] = v\<close> on the pixel-access object: out of range is an \<^verbatim>\<open>IndexError\<close>,
      each channel (taken within the range of the library's machine integers) is stored
      clipped to a byte\<close>
  "putpixel im xy v =
     (case (size_of im, xy, v) of ((w, h), (x, y), (r, g, b, a)) \<Rightarrow>
        if 0 \<le> x \<and> x < w \<and> 0 \<le> y \<and> y < h
        then Inr (PutPixel im x y (clip8 r, clip8 g, clip8 b, clip8 a))
        else Inl IndexError)"

fun getpixel :: "image \<Rightarrow> int \<times> int \<Rightarrow> rgba option" where
  \<comment> \<open>the stored pixel, for an image built from \<^verbatim>\<open>Image.new\<close> and pixel stores only\<close>
  "getpixel (New m w h c) xy =
     (case c of Color v \<Rightarrow> if 0 \<le> fst xy \<and> fst xy < w \<and> 0 \<le> snd xy \<and> snd xy < h then Some v else None
      | Gray g \<Rightarrow> None)"
| "getpixel (PutPixel im x y v) xy = (if xy = (x, y) then Some v else getpixel im xy)"
| "getpixel im xy = None"

definition ellipse :: "image \<Rightarrow> double list \<Rightarrow> ink \<Rightarrow> error + image" where
  \<comment> \<open>\<^verbatim>\<open>ImageDraw.Draw(im).ellipse([x0, y0, x1, y1], fill=c)\<close>: the box must have
      \<^verbatim>\<open>x1 >= x0\<close> and \<^verbatim>\<open>y1 >= y0\<close>\<close>
  "ellipse im box c =
     (case box of
        [x0, y0, x1, y1] \<Rightarrow> if fle x0 x1 \<and> fle y0 y1 then Inr (Ellipse im box c) else Inl ValueError
      | _ \<Rightarrow> Inl ValueError)"

definition resize :: "image \<Rightarrow> int \<times> int \<Rightarrow> resampling \<Rightarrow> error + image" where
  \<comment> \<open>\<^verbatim>\<open>im.resize(size, resample=f)\<close>: an image already of that size is copied, a target
      dimension below 1 is a \<^verbatim>\<open>ValueError\<close>\<close>
  "resize im sz f =
     (if size_of im = sz then Inr im
      else if fst sz < 1 \<or> snd sz < 1 then Inl ValueError
      else Inr (Resize im (fst sz) (snd sz) f))"

definition composite :: "image \<Rightarrow> image \<Rightarrow> image \<Rightarrow> error + image" where
  \<comment> \<open>\<^verbatim>\<open>Image.composite(image1, image2, mask)\<close>: the three sizes must agree\<close>
  "composite im1 im2 msk =
     (if size_of im1 = size_of im2 \<and> size_of msk = size_of im2 then Inr (Composite im1 im2 msk)
      else Inl ValueError)"

definition alpha_composite :: "image \<Rightarrow> image \<Rightarrow> error + image" where
  \<comment> \<open>\<^verbatim>\<open>dst.alpha_composite(src)\<close>, in place: both images must be RGBA\<close>
  "alpha_composite dst src =
     (if mode_of dst = RGBA \<and> mode_of src = RGBA then Inr (AlphaComposite dst src)
      else Inl ValueError)"

section \<open>The renderer\<close>

definition BG :: rgba where "BG = (20, 24, 30, 255)"
definition INNER :: rgba where "INNER = (34, 40, 52, 255)"

definition lerp :: "int \<Rightarrow> int \<Rightarrow> double \<Rightarrow> error + int" where
  \<comment> \<open>\<^verbatim>\<open>int(top[i] + (bottom[i] - top[i]) * t)\<close>: the difference is converted for the
      product, then the top channel for the sum\<close>
  "lerp top_c bottom_c t =
     and_then (float_of_int (bottom_c - top_c)) (\<lambda>d.
     and_then (float_of_int top_c) (\<lambda>c.
     int_of_float (fadd c (fmul d t))))"

fun gradient_rows :: "int list \<Rightarrow> int \<Rightarrow> rgba \<Rightarrow> rgba \<Rightarrow> image \<Rightarrow> error + image" where
  \<comment> \<open>the body of \<^verbatim>\<open>for y in range(height)\<close>, over the rows still to be written\<close>
  "gradient_rows [] height top_c bottom_c col = Inr col"
| "gradient_rows (y # ys) height top_c bottom_c col =
     (case (top_c, bottom_c) of ((t0, t1, t2, t3), (b0, b1, b2, b3)) \<Rightarrow>
        and_then (truediv y (max 1 (height - 1))) (\<lambda>t.
        and_then (lerp t0 b0 t) (\<lambda>v0.
        and_then (lerp t1 b1 t) (\<lambda>v1.
        and_then (lerp t2 b2 t) (\<lambda>v2.
        and_then (lerp t3 b3 t) (\<lambda>v3.
        and_then (putpixel col (0, y) (v0, v1, v2, v3))
          (gradient_rows ys height top_c bottom_c)))))))"

definition make_vertical_gradient :: "int \<Rightarrow> rgba \<Rightarrow> rgba \<Rightarrow> error + image" where
  "make_vertical_gradient height top_c bottom_c =
     and_then (image_new RGBA (1, height) (Color (0, 0, 0, 0)))
       (gradient_rows [0 .. height - 1] height top_c bottom_c)"

text \<open>
  The radii, for a working size \<open>ss\<close> that converts to a float.  Each is a fraction of
  \<open>ss\<close> rounded toward zero, so it is no larger than \<open>ss\<close> in magnitude and converts to a
  float whenever \<open>ss\<close> does.
\<close>

definition r_outer :: "int \<Rightarrow> int" where
  \<comment> \<open>\<^verbatim>\<open>int(0.41 * ss)\<close>\<close>
  "r_outer ss = trunc (fmul lit_0_41 (float_val ss))"

definition r_inner :: "int \<Rightarrow> int" where
  \<comment> \<open>\<^verbatim>\<open>int(0.295 * ss)\<close>\<close>
  "r_inner ss = trunc (fmul lit_0_295 (float_val ss))"

definition inner_r :: "int \<Rightarrow> int" where
  \<comment> \<open>\<^verbatim>\<open>r_inner - int(0.01 * ss)\<close>\<close>
  "inner_r ss = r_inner ss - trunc (fmul lit_0_01 (float_val ss))"

definition disc_box :: "double \<Rightarrow> double \<Rightarrow> int \<Rightarrow> double list" where
  \<comment> \<open>\<^verbatim>\<open>[x - r, y - r, x + r, y + r]\<close> for floats \<open>x\<close>, \<open>y\<close> and a radius \<open>r\<close>\<close>
  "disc_box x y r =
     [fsub x (float_val r), fsub y (float_val r),
      fadd x (float_val r), fadd y (float_val r)]"

definition working_size :: "int \<Rightarrow> int \<Rightarrow> int" where
  \<comment> \<open>\<^verbatim>\<open>ss = int(base_size * supersample)\<close>, the side of the working canvas\<close>
  "working_size base_size supersample = base_size * supersample"

definition render_icon :: "int \<Rightarrow> int \<Rightarrow> error + image" where
  \<comment> \<open>\<open>ss_f\<close> is \<open>ss\<close> as a float, converted first by \<^verbatim>\<open>0.41 * ss\<close>;
      \<open>s_f\<close> is \<^verbatim>\<open>supersample\<close> as a float, converted by \<^verbatim>\<open>1.2 * supersample\<close>\<close>
  "render_icon base_size supersample =
     (let ss = working_size base_size supersample
      in and_then (truediv ss 2) (\<lambda>cx.
         let cy = cx
         in and_then (float_of_int ss) (\<lambda>ss_f.
         and_then (image_new RGBA (ss, ss) (Color BG)) (\<lambda>img.
         and_then (image_new L (ss, ss) (Gray 0)) (\<lambda>ring_mask.
         and_then (ellipse ring_mask (disc_box cx cy (r_outer ss)) (Gray 255)) (\<lambda>ring_mask.
         and_then (ellipse ring_mask (disc_box cx cy (r_inner ss)) (Gray 0)) (\<lambda>ring_mask.
         and_then (float_of_int supersample) (\<lambda>s_f.
         let ring_mask = GaussianBlur (fmul lit_1_2 s_f) ring_mask
         in and_then (make_vertical_gradient ss (245, 150, 45, 255) (205, 120, 35, 255)) (\<lambda>grad_col.
         and_then (resize grad_col (ss, ss) BILINEAR) (\<lambda>grad.
         and_then (image_new RGBA (ss, ss) (Color (0, 0, 0, 0))) (\<lambda>clear.
         and_then (composite grad clear ring_mask) (\<lambda>ring.
         and_then (alpha_composite img ring) (\<lambda>img.
         and_then (ellipse img (disc_box cx cy (inner_r ss)) (Color INNER)) (\<lambda>img.
         let hd_r = trunc (fmul lit_0_05 ss_f);
             hx = fadd cx (float_val (trunc (fmul lit_0_23 ss_f)));
             hy = fsub cy (float_val (trunc (fmul lit_0_21 ss_f)))
         in and_then (image_new RGBA (ss, ss) (Color (0, 0, 0, 0))) (\<lambda>dot.
         and_then (ellipse dot (disc_box hx hy hd_r) (Color (255, 230, 160, 180))) (\<lambda>dot.
         let dot = GaussianBlur (fmul lit_0_012 ss_f) dot
         in and_then (alpha_composite img dot) (\<lambda>img.
         resize img (base_size, base_size) LANCZOS)))))))))))))))))"


section \<open>The file system\<close>

text \<open>
  A path is the list of its components below the working directory, which is the empty
  path and always a directory.  The file system maps a path to what is there.
\<close>

type_synonym path = "string list"

datatype file_data = PNG image | Bytes "nat list"

datatype node = Dir | File file_data

type_synonym filesystem = "path \<Rightarrow> node option"

type_synonym action = "filesystem \<Rightarrow> error option \<times> filesystem"

definition node_at :: "filesystem \<Rightarrow> path \<Rightarrow> node option" where
  "node_at fs p = (if p = [] then Some Dir else fs p)"

definition path_exists :: "filesystem \<Rightarrow> path \<Rightarrow> bool" where
  "path_exists fs p = (node_at fs p \<noteq> None)"

definition parent :: "path \<Rightarrow> path" where
  "parent p = butlast p"

definition seq :: "action \<Rightarrow> action \<Rightarrow> action" where
  \<comment> \<open>two statements in a row: an exception in the first leaves the files as they are then\<close>
  "seq f g fs = (case f fs of (None, fs') \<Rightarrow> g fs' | (Some e, fs') \<Rightarrow> (Some e, fs'))"

fun mkdirs :: "path list \<Rightarrow> action" where
  "mkdirs [] fs = (None, fs)"
| "mkdirs (p # ps) fs =
     (case node_at fs p of
        None \<Rightarrow> mkdirs ps (fs(p \<mapsto> Dir))
      | Some Dir \<Rightarrow> mkdirs ps fs
      | Some (File c) \<Rightarrow> (Some (if ps = [] then FileExistsError else NotADirectoryError), fs))"

definition mkdir :: "path \<Rightarrow> action" where
  \<comment> \<open>\<^verbatim>\<open>p.mkdir(parents=True, exist_ok=True)\<close>\<close>
  "mkdir p = mkdirs (prefixes p)"

definition rmtree :: "path \<Rightarrow> action" where
  \<comment> \<open>\<^verbatim>\<open>shutil.rmtree(p)\<close>; the working directory itself cannot be removed\<close>
  "rmtree p fs =
     (case node_at fs p of
        None \<Rightarrow> (Some FileNotFoundError, fs)
      | Some (File c) \<Rightarrow> (Some NotADirectoryError, fs)
      | Some Dir \<Rightarrow>
          (if p = [] then Some OSError else None, \<lambda>q. if prefix p q then None else fs q))"

definition save :: "image \<Rightarrow> path \<Rightarrow> action" where
  \<comment> \<open>\<^verbatim>\<open>img.save(path)\<close> for a path ending in \<^verbatim>\<open>.png\<close> and an image with no side of
      zero pixels\<close>
  "save img p fs =
     (case node_at fs p of
        Some Dir \<Rightarrow> (Some IsADirectoryError, fs)
      | _ \<Rightarrow>
         (case node_at fs (parent p) of
            None \<Rightarrow> (Some FileNotFoundError, fs)
          | Some (File c) \<Rightarrow> (Some NotADirectoryError, fs)
          | Some Dir \<Rightarrow> (None, fs(p \<mapsto> File (PNG img)))))"

section \<open>Exporter, packager and main\<close>

definition write_png :: "image \<Rightarrow> path \<Rightarrow> action" where
  "write_png img p = seq (mkdir (parent p)) (save img p)"

definition sizes :: "(string \<times> int) list" where
  "sizes =
     [(''icon_16x16.png'', 16),
      (''icon_16x16@2x.png'', 32),
      (''icon_32x32.png'', 32),
      (''icon_32x32@2x.png'', 64),
      (''icon_128x128.png'', 128),
      (''icon_128x128@2x.png'', 256),
      (''icon_256x256.png'', 256),
      (''icon_256x256@2x.png'', 512),
      (''icon_512x512.png'', 512),
      (''icon_512x512@2x.png'', 1024)]"

fun write_entries :: "image \<Rightarrow> path \<Rightarrow> (string \<times> int) list \<Rightarrow> action" where
  \<comment> \<open>the body of \<^verbatim>\<open>for name, px in sizes\<close>, over the entries still to be written\<close>
  "write_entries base_png iconset_dir [] fs = (None, fs)"
| "write_entries base_png iconset_dir ((name, px) # rest) fs =
     (case resize base_png (px, px) LANCZOS of
        Inl e \<Rightarrow> (Some e, fs)
      | Inr resized \<Rightarrow>
          seq (save resized (iconset_dir @ [name])) (write_entries base_png iconset_dir rest) fs)"

definition write_iconset :: "image \<Rightarrow> path \<Rightarrow> action" where
  "write_iconset base_png iconset_dir =
     seq (\<lambda>fs. if path_exists fs iconset_dir then rmtree iconset_dir fs else (None, fs))
       (seq (mkdir iconset_dir) (write_entries base_png iconset_dir sizes))"

text \<open>
  \<^verbatim>\<open>iconutil\<close> is a program of the host system.  It is a parameter: given the files, the
  staging directory and the destination, either it cannot be started, or it exits with a
  status and may leave data at the destination; it is taken to touch nothing else.  A
  utility that cannot be started is taken to be missing (\<^verbatim>\<open>FileNotFoundError\<close>).
\<close>

datatype launch = NotStarted | Exited int "file_data option"

type_synonym utility = "filesystem \<Rightarrow> path \<Rightarrow> path \<Rightarrow> launch"

definition subprocess_run :: "utility \<Rightarrow> path \<Rightarrow> path \<Rightarrow> action" where
  \<comment> \<open>\<^verbatim>\<open>subprocess.run(["iconutil", "-c", "icns", src, "-o", dst], check=True)\<close>\<close>
  "subprocess_run iconutil src dst fs =
     (case iconutil fs src dst of
        NotStarted \<Rightarrow> (Some FileNotFoundError, fs)
      | Exited rc out \<Rightarrow>
          (if rc \<noteq> 0 then Some (CalledProcessError rc) else None,
           case out of None \<Rightarrow> fs | Some d \<Rightarrow> fs(dst \<mapsto> File d)))"

definition build_icns :: "utility \<Rightarrow> path \<Rightarrow> path \<Rightarrow> action" where
  "build_icns iconutil iconset_dir icns_path =
     seq (mkdir (parent icns_path)) (subprocess_run iconutil iconset_dir icns_path)"

record args =
  assets_dir :: path
  base_size :: int
  supersample :: int

fun path_str :: "path \<Rightarrow> string" where
  \<comment> \<open>\<^verbatim>\<open>str(path)\<close>\<close>
  "path_str [] = ''.''"
| "path_str [c] = c"
| "path_str (c # cs) = c @ ''/'' @ path_str cs"

definition clamped_supersample :: "args \<Rightarrow> int" where
  \<comment> \<open>\<^verbatim>\<open>max(1, args.supersample)\<close>\<close>
  "clamped_supersample a = max 1 (supersample a)"

definition main :: "utility \<Rightarrow> args \<Rightarrow> filesystem \<Rightarrow> error option \<times> filesystem \<times> string list" where
  \<comment> \<open>returns the uncaught exception if any, the files, and the lines printed\<close>
  "main iconutil a fs =
     (let base_png_path = assets_dir a @ [''oxidate.png''];
          iconset_dir = assets_dir a @ [''oxidate.iconset''];
          icns_path = assets_dir a @ [''oxidate.icns'']
      in case render_icon (base_size a) (clamped_supersample a) of
           Inl e \<Rightarrow> (Some e, fs, [])
         | Inr base \<Rightarrow>
            (case seq (write_png base base_png_path)
                    (seq (write_iconset base iconset_dir)
                       (build_icns iconutil iconset_dir icns_path)) fs of
               (Some e, fs') \<Rightarrow> (Some e, fs', [])
             | (None, fs') \<Rightarrow>
                 (None, fs', [''wrote '' @ path_str base_png_path, ''wrote '' @ path_str icns_path])))"

definition exit_status :: "error option \<Rightarrow> int" where
  \<comment> \<open>the interpreter exits with 1 on an uncaught exception, with 0 otherwise\<close>
  "exit_status r = (case r of None \<Rightarrow> 0 | Some e \<Rightarrow> 1)"

section \<open>Notions used in the statements\<close>

text \<open>
  The value of a float as a real number, and round-to-nearest-even on the reals: \<open>rnd x\<close>
  is the nearest multiple of \<open>2^e\<close> for the \<open>e\<close> that puts \<open>x / 2^e\<close> in
  \<open>[2^52, 2^53)\<close>.  The float operations above are shown to compute \<open>rnd\<close> of the exact
  result.
\<close>

definition p2 :: "int \<Rightarrow> real" where
  "p2 k = 2 powr real_of_int k"

definition valof :: "double \<Rightarrow> real" where
  "valof x = real_of_int (mantissa x) * p2 (exponent x)"

definition rhe :: "real \<Rightarrow> int" where
  "rhe z = (if 1 / 2 < frac z \<or> (frac z = 1 / 2 \<and> odd \<lfloor>z\<rfloor>) then \<lfloor>z\<rfloor> + 1 else \<lfloor>z\<rfloor>)"

definition ulp_exp :: "real \<Rightarrow> int" where
  "ulp_exp x = \<lfloor>log 2 \<bar>x\<bar>\<rfloor> - 52"

definition rnd :: "real \<Rightarrow> real" where
  "rnd x = (if x = 0 then 0
            else sgn x * real_of_int (rhe (\<bar>x\<bar> / p2 (ulp_exp x))) * p2 (ulp_exp x))"

definition wf_fs :: "filesystem \<Rightarrow> bool" where
  \<comment> \<open>whatever exists lies in a directory\<close>
  "wf_fs fs = (\<forall>p. p \<noteq> [] \<longrightarrow> fs p \<noteq> None \<longrightarrow> node_at fs (parent p) = Some Dir)"

definition is_file :: "node option \<Rightarrow> bool" where
  "is_file x = (case x of Some (File c) \<Rightarrow> True | _ \<Rightarrow> False)"

definition clear_path :: "filesystem \<Rightarrow> path \<Rightarrow> bool" where
  \<comment> \<open>no regular file sits at the path or at one of its ancestors\<close>
  "clear_path fs d = (\<forall>p\<in>set (prefixes d). \<not> is_file (node_at fs p))"

definition resized :: "image \<Rightarrow> int \<Rightarrow> image" where
  \<comment> \<open>what \<^verbatim>\<open>base.resize((px, px), resample=LANCZOS)\<close> returns for \<open>px \<ge> 1\<close>\<close>
  "resized base px = (if size_of base = (px, px) then base else Resize base px px LANCZOS)"

definition launch_failed :: "launch \<Rightarrow> bool" where
  \<comment> \<open>the utility could not be started, or exited with a non-zero status\<close>
  "launch_failed l = (case l of NotStarted \<Rightarrow> True | Exited rc out \<Rightarrow> rc \<noteq> 0)"

definition exited_nonzero :: "launch \<Rightarrow> bool" where
  \<comment> \<open>the utility ran and exited with a non-zero status\<close>
  "exited_nonzero l = (case l of NotStarted \<Rightarrow> False | Exited rc out \<Rightarrow> rc \<noteq> 0)"

text \<open>
  For the gradient: a colour channel is a byte; \<open>code_lerp\<close> is what the loop computes for
  one channel of row \<open>y\<close>, in floats; \<open>exact_lerp\<close> is the interpolation
  \<open>top + (bottom - top) * y / (height - 1)\<close> of the specification, in exact arithmetic,
  rounded down.
\<close>

definition byte :: "int \<Rightarrow> bool" where
  "byte v = (0 \<le> v \<and> v \<le> 255)"

definition code_lerp :: "int \<Rightarrow> int \<Rightarrow> int \<Rightarrow> int \<Rightarrow> int" where
  "code_lerp height top_c bottom_c y =
     trunc (fadd (float_val top_c)
              (fmul (float_val (bottom_c - top_c)) (round_ratio y (max 1 (height - 1)))))"

definition exact_lerp :: "int \<Rightarrow> int \<Rightarrow> int \<Rightarrow> int \<Rightarrow> int" where
  "exact_lerp height top_c bottom_c y =
     (top_c * max 1 (height - 1) + (bottom_c - top_c) * y) div max 1 (height - 1)"

definition gradient_pixel :: "int \<Rightarrow> rgba \<Rightarrow> rgba \<Rightarrow> int \<Rightarrow> rgba" where
  \<comment> \<open>the four channels of row \<open>y\<close>\<close>
  "gradient_pixel height top_c bottom_c y =
     (case (top_c, bottom_c) of ((t0, t1, t2, t3), (b0, b1, b2, b3)) \<Rightarrow>
        (code_lerp height t0 b0 y, code_lerp height t1 b1 y,
         code_lerp height t2 b2 y, code_lerp height t3 b3 y))"


section \<open>Float arithmetic rounds the exact result\<close>

lemma frac_ratio:
  assumes "0 < d"
  shows "frac (real_of_int n / real_of_int d) = real_of_int (n mod d) / real_of_int d"
proof -
  have "real_of_int n = real_of_int (n div d) * real_of_int d + real_of_int (n mod d)"
    by (metis of_int_add of_int_mult div_mult_mod_eq)
  then have "real_of_int n / real_of_int d = real_of_int (n div d) + real_of_int (n mod d) / real_of_int d"
    using assms by (simp add: field_simps)
  then show ?thesis
    by (simp add: frac_def floor_divide_of_int_eq)
qed

lemma round_half_even_rhe:
  assumes "0 < d"
  shows "round_half_even n d = rhe (real_of_int n / real_of_int d)"
proof -
  let ?r = "n mod d"
  have f: "frac (real_of_int n / real_of_int d) = real_of_int ?r / real_of_int d"
    using frac_ratio[OF assms] .
  have gt: "1 / 2 < real_of_int ?r / real_of_int d \<longleftrightarrow> d < 2 * ?r"
    using assms by (simp add: field_simps) linarith
  have eq: "real_of_int ?r / real_of_int d = 1 / 2 \<longleftrightarrow> 2 * ?r = d"
    using assms by (simp add: field_simps) linarith
  show ?thesis
    unfolding round_half_even_def rhe_def Let_def f gt eq floor_divide_of_int_eq by simp
qed

lemma rhe_bounds: "\<lfloor>z\<rfloor> \<le> rhe z" "rhe z \<le> \<lfloor>z\<rfloor> + 1"
  by (simp_all add: rhe_def)

lemma rhe_of_int [simp]: "rhe (of_int k) = k"
  by (simp add: rhe_def)

lemma rhe_mono:
  assumes "z \<le> z'"
  shows "rhe z \<le> rhe z'"
proof (cases "\<lfloor>z\<rfloor> = \<lfloor>z'\<rfloor>")
  case True
  with assms have "frac z \<le> frac z'" by (simp add: frac_def)
  with True show ?thesis by (auto simp: rhe_def)
next
  case False
  with assms have "\<lfloor>z\<rfloor> < \<lfloor>z'\<rfloor>" using floor_mono[OF assms] by linarith
  then have "rhe z \<le> \<lfloor>z'\<rfloor>" using rhe_bounds(2)[of z] by linarith
  also have "\<dots> \<le> rhe z'" by (rule rhe_bounds)
  finally show ?thesis .
qed

lemma rhe_close: "\<bar>real_of_int (rhe z) - z\<bar> \<le> 1 / 2"
proof -
  have "z = real_of_int \<lfloor>z\<rfloor> + frac z" by (simp add: frac_def)
  moreover have "0 \<le> frac z" "frac z < 1" by (simp_all add: frac_lt_1)
  ultimately show ?thesis by (auto simp: rhe_def)
qed

lemma p2_pos [simp]: "0 < p2 k"
  by (simp add: p2_def)

lemma p2_nonneg [simp]: "0 \<le> p2 k"
  by (simp add: p2_def)

lemma p2_neq_0 [simp]: "p2 k \<noteq> 0"
  by (simp add: p2_def)

lemma p2_0 [simp]: "p2 0 = 1"
  by (simp add: p2_def)

lemma p2_add: "p2 (a + b) = p2 a * p2 b"
  by (simp add: p2_def powr_add)

lemma p2_diff: "p2 (a - b) = p2 a / p2 b"
  by (simp add: p2_def powr_diff)

lemma p2_nat: "0 \<le> k \<Longrightarrow> p2 k = 2 ^ nat k"
  by (simp add: p2_def powr_real_of_int)

lemma p2_neg: "k < 0 \<Longrightarrow> p2 k = 1 / 2 ^ nat (- k)"
  by (simp add: p2_def powr_real_of_int inverse_eq_divide)

lemma p2_mono: "a \<le> b \<Longrightarrow> p2 a \<le> p2 b"
  by (simp add: p2_def)

lemma p2_strict_mono: "a < b \<Longrightarrow> p2 a < p2 b"
  by (simp add: p2_def)

lemma floor_log_p2: "0 < x \<Longrightarrow> \<lfloor>log 2 x\<rfloor> = k \<longleftrightarrow> p2 k \<le> x \<and> x < p2 (k + 1)"
  using floor_log_eq_powr_iff[of x 2 k] by (simp add: p2_def)

lemma bitlen_p2_bounds:
  assumes "0 < m"
  shows "p2 (bitlen m - 1) \<le> real_of_int m" and "real_of_int m < p2 (bitlen m)"
proof -
  from assms have pos: "0 \<le> bitlen m - 1" "0 \<le> bitlen m" by (auto simp: bitlen_alt_def)
  from bitlen_bounds[OF assms] have lo: "2 ^ nat (bitlen m - 1) \<le> m" and hi: "m < 2 ^ nat (bitlen m)"
    by simp_all
  have "real_of_int (2 ^ nat (bitlen m - 1)) \<le> real_of_int m"
    using lo by (simp only: of_int_le_iff)
  then have "(2::real) ^ nat (bitlen m - 1) \<le> real_of_int m" by simp
  then show "p2 (bitlen m - 1) \<le> real_of_int m"
    by (simp only: p2_nat[OF pos(1)])
  have "real_of_int m < real_of_int (2 ^ nat (bitlen m))"
    using hi by (simp only: of_int_less_iff)
  then have "real_of_int m < (2::real) ^ nat (bitlen m)" by simp
  then show "real_of_int m < p2 (bitlen m)"
    by (simp only: p2_nat[OF pos(2)])
qed

lemma binade_test:
  assumes "0 < d"
  shows "(if 0 \<le> k then d * 2 ^ nat k \<le> n else d \<le> n * 2 ^ nat (- k))
         \<longleftrightarrow> p2 k \<le> real_of_int n / real_of_int d"
proof (cases "0 \<le> k")
  case True
  have "d * 2 ^ nat k \<le> n \<longleftrightarrow> real_of_int (d * 2 ^ nat k) \<le> real_of_int n"
    by (simp only: of_int_le_iff)
  also have "\<dots> \<longleftrightarrow> real_of_int d * 2 ^ nat k \<le> real_of_int n" by simp
  also have "\<dots> \<longleftrightarrow> 2 ^ nat k \<le> real_of_int n / real_of_int d"
    using assms by (simp add: field_simps)
  finally show ?thesis using True by (simp add: p2_nat)
next
  case False
  then have neg: "k < 0" by simp
  have "d \<le> n * 2 ^ nat (- k) \<longleftrightarrow> real_of_int d \<le> real_of_int (n * 2 ^ nat (- k))"
    by (simp only: of_int_le_iff)
  also have "\<dots> \<longleftrightarrow> real_of_int d \<le> real_of_int n * 2 ^ nat (- k)" by simp
  also have "\<dots> \<longleftrightarrow> 1 / 2 ^ nat (- k) \<le> real_of_int n / real_of_int d"
    using assms by (simp add: field_simps)
  finally show ?thesis using False by (simp add: p2_neg[OF neg])
qed

lemma binade_floor_log:
  assumes n: "0 < n" and d: "0 < d"
  shows "binade n d = \<lfloor>log 2 (real_of_int n / real_of_int d)\<rfloor>"
proof -
  let ?x = "real_of_int n / real_of_int d"
  let ?k = "bitlen n - bitlen d"
  have x: "0 < ?x" using n d by simp
  have rd: "0 < real_of_int d" using d by simp
  have rn: "0 < real_of_int n" using n by simp
  have lo: "p2 (?k - 1) < ?x"
  proof -
    have "p2 (?k - 1) = p2 ((bitlen n - 1) - bitlen d)" by (simp add: algebra_simps)
    also have "\<dots> = p2 (bitlen n - 1) / p2 (bitlen d)" by (rule p2_diff)
    also have "\<dots> \<le> real_of_int n / p2 (bitlen d)"
      using bitlen_p2_bounds(1)[OF n] by (rule divide_right_mono) simp
    also have "\<dots> < ?x"
      by (rule divide_strict_left_mono[OF bitlen_p2_bounds(2)[OF d] rn]) (rule mult_pos_pos[OF p2_pos rd])
    finally show ?thesis .
  qed
  have hi: "?x < p2 (?k + 1)"
  proof -
    have "?x < p2 (bitlen n) / real_of_int d"
      using bitlen_p2_bounds(2)[OF n] rd by (rule divide_strict_right_mono)
    also have "\<dots> \<le> p2 (bitlen n) / p2 (bitlen d - 1)"
      by (rule divide_left_mono[OF bitlen_p2_bounds(1)[OF d] p2_nonneg mult_pos_pos[OF rd p2_pos]])
    also have "\<dots> = p2 (bitlen n - (bitlen d - 1))" by (rule p2_diff[symmetric])
    also have "\<dots> = p2 (?k + 1)" by (simp add: algebra_simps)
    finally show ?thesis .
  qed
  show ?thesis
  proof (cases "p2 ?k \<le> ?x")
    case True
    then have "binade n d = ?k"
      using binade_test[OF d, of ?k n] by (simp add: binade_def Let_def)
    moreover have "\<lfloor>log 2 ?x\<rfloor> = ?k"
      using True hi floor_log_p2[OF x, of ?k] by simp
    ultimately show ?thesis by simp
  next
    case False
    then have "binade n d = ?k - 1"
      using binade_test[OF d, of ?k n] by (simp add: binade_def Let_def)
    moreover have "\<lfloor>log 2 ?x\<rfloor> = ?k - 1"
      using False lo floor_log_p2[OF x, of "?k - 1"] by simp
    ultimately show ?thesis by simp
  qed
qed

lemma round_ratio_rnd:
  assumes d: "0 < d"
  shows "valof (round_ratio n d) = rnd (real_of_int n / real_of_int d)"
proof (cases "n = 0")
  case True
  then show ?thesis by (simp add: round_ratio_def valof_def rnd_def)
next
  case False
  let ?x = "real_of_int n / real_of_int d"
  let ?a = "real_of_int \<bar>n\<bar> / real_of_int d"
  let ?e = "binade \<bar>n\<bar> d - 52"
  from False have an: "0 < \<bar>n\<bar>" by simp
  have rd: "0 < real_of_int d" using d by simp
  have x0: "?x \<noteq> 0" using False d by simp
  have ax: "\<bar>?x\<bar> = ?a" using d by (simp add: abs_divide)
  have e: "?e = ulp_exp ?x"
    unfolding ulp_exp_def ax using binade_floor_log[OF an d] by simp
  have sg: "real_of_int (sgn n) = sgn ?x"
    using d False by (simp add: sgn_if divide_neg_pos divide_pos_pos field_simps)
  define m where "m = (if 0 \<le> ?e then round_half_even \<bar>n\<bar> (d * 2 ^ nat ?e)
                    else round_half_even (\<bar>n\<bar> * 2 ^ nat (- ?e)) d)"
  have m: "m = rhe (?a / p2 ?e)"
  proof (cases "0 \<le> ?e")
    case True
    have "0 < d * 2 ^ nat ?e" using d by simp
    from round_half_even_rhe[OF this, of "\<bar>n\<bar>"]
    have "m = rhe (real_of_int \<bar>n\<bar> / real_of_int (d * 2 ^ nat ?e))"
      using True by (simp only: m_def if_True)
    also have "real_of_int \<bar>n\<bar> / real_of_int (d * 2 ^ nat ?e) = ?a / 2 ^ nat ?e"
      by simp
    also have "\<dots> = ?a / p2 ?e" by (simp only: p2_nat[OF True])
    finally show ?thesis .
  next
    case False
    then have neg: "?e < 0" by simp
    from round_half_even_rhe[OF d, of "\<bar>n\<bar> * 2 ^ nat (- ?e)"]
    have "m = rhe (real_of_int (\<bar>n\<bar> * 2 ^ nat (- ?e)) / real_of_int d)"
      using False by (simp only: m_def if_False)
    also have "real_of_int (\<bar>n\<bar> * 2 ^ nat (- ?e)) / real_of_int d = ?a * 2 ^ nat (- ?e)"
      by simp
    also have "\<dots> = ?a / p2 ?e" by (simp only: p2_neg[OF neg]) simp
    finally show ?thesis .
  qed
  have "round_ratio n d = Double (sgn n * m) ?e"
    using False by (simp add: round_ratio_def Let_def m_def)
  then have "valof (round_ratio n d) = real_of_int (sgn n * m) * p2 ?e"
    by (simp add: valof_def)
  also have "\<dots> = sgn ?x * real_of_int m * p2 ?e"
    using sg by simp
  also have "\<dots> = rnd ?x"
    using x0 by (simp only: rnd_def if_False m ax e)
  finally show ?thesis .
qed

lemma round_dyadic_rnd: "valof (round_dyadic m e) = rnd (real_of_int m * p2 e)"
proof (cases "0 \<le> e")
  case True
  have "valof (round_dyadic m e) = rnd (real_of_int (m * 2 ^ nat e) / real_of_int 1)"
    using True round_ratio_rnd[of 1 "m * 2 ^ nat e"] by (simp add: round_dyadic_def)
  also have "real_of_int (m * 2 ^ nat e) / real_of_int 1 = real_of_int m * 2 ^ nat e" by simp
  also have "\<dots> = real_of_int m * p2 e" by (simp only: p2_nat[OF True])
  finally show ?thesis .
next
  case False
  then have neg: "e < 0" by simp
  have "(0::int) < 2 ^ nat (- e)" by simp
  from round_ratio_rnd[OF this, of m]
  have "valof (round_dyadic m e) = rnd (real_of_int m / real_of_int (2 ^ nat (- e)))"
    using False by (simp add: round_dyadic_def)
  also have "real_of_int m / real_of_int (2 ^ nat (- e)) = real_of_int m * (1 / 2 ^ nat (- e))" by simp
  also have "\<dots> = real_of_int m * p2 e" by (simp only: p2_neg[OF neg])
  finally show ?thesis .
qed

lemma valof_float_val: "valof (float_val i) = rnd (real_of_int i)"
  using round_ratio_rnd[of 1 i] by (simp add: float_val_def)

lemma valof_fmul: "valof (fmul x y) = rnd (valof x * valof y)"
proof -
  have "real_of_int (mantissa x * mantissa y) * p2 (exponent x + exponent y) = valof x * valof y"
    by (simp add: valof_def p2_add)
  then show ?thesis by (simp only: fmul_def round_dyadic_rnd)
qed

lemma align:
  assumes "e \<le> k"
  shows "real_of_int (m * 2 ^ nat (k - e)) * p2 e = real_of_int m * p2 k"
proof -
  from assms have nn: "0 \<le> k - e" by simp
  have "p2 k = p2 ((k - e) + e)" by simp
  also have "\<dots> = p2 (k - e) * p2 e" by (rule p2_add)
  also have "\<dots> = 2 ^ nat (k - e) * p2 e" by (simp only: p2_nat[OF nn])
  finally show ?thesis by simp
qed

lemma valof_fadd: "valof (fadd x y) = rnd (valof x + valof y)"
proof -
  let ?e = "min (exponent x) (exponent y)"
  have "real_of_int (mantissa x * 2 ^ nat (exponent x - ?e) + mantissa y * 2 ^ nat (exponent y - ?e)) * p2 ?e
        = real_of_int (mantissa x * 2 ^ nat (exponent x - ?e)) * p2 ?e
          + real_of_int (mantissa y * 2 ^ nat (exponent y - ?e)) * p2 ?e"
    by (simp only: of_int_add distrib_right)
  also have "\<dots> = valof x + valof y"
    by (simp only: align[of ?e "exponent x"] align[of ?e "exponent y"] min.cobounded1 min.cobounded2 valof_def)
  finally show ?thesis by (simp only: fadd_def Let_def round_dyadic_rnd)
qed

lemma valof_fneg: "valof (fneg x) = - valof x"
  by (simp add: fneg_def valof_def)

lemma valof_fsub: "valof (fsub x y) = rnd (valof x - valof y)"
  by (simp add: fsub_def valof_fadd valof_fneg)

lemma fle_valof: "fle x y \<longleftrightarrow> valof x \<le> valof y"
proof -
  let ?e = "min (exponent x) (exponent y)"
  let ?a = "mantissa x * 2 ^ nat (exponent x - ?e)"
  let ?b = "mantissa y * 2 ^ nat (exponent y - ?e)"
  have "?a \<le> ?b \<longleftrightarrow> real_of_int ?a \<le> real_of_int ?b" by (simp only: of_int_le_iff)
  also have "\<dots> \<longleftrightarrow> real_of_int ?a * p2 ?e \<le> real_of_int ?b * p2 ?e"
    by (simp only: mult_le_cancel_right_pos[OF p2_pos])
  also have "\<dots> \<longleftrightarrow> valof x \<le> valof y"
    by (simp only: align[of ?e "exponent x"] align[of ?e "exponent y"] min.cobounded1 min.cobounded2 valof_def)
  finally show ?thesis by (simp only: fle_def Let_def)
qed

lemma rnd_0 [simp]: "rnd 0 = 0"
  by (simp add: rnd_def)

lemma ulp_exp_minus [simp]: "ulp_exp (- x) = ulp_exp x"
  by (simp add: ulp_exp_def)

lemma rnd_minus: "rnd (- x) = - rnd x"
  by (simp add: rnd_def sgn_minus)

lemma ulp_exp_bounds:
  assumes "0 < x"
  shows "p2 (ulp_exp x + 52) \<le> x" and "x < p2 (ulp_exp x + 53)"
proof -
  have "\<lfloor>log 2 x\<rfloor> = ulp_exp x + 52" using assms by (simp add: ulp_exp_def)
  with floor_log_p2[OF assms, of "ulp_exp x + 52"]
  have "p2 (ulp_exp x + 52) \<le> x \<and> x < p2 (ulp_exp x + 52 + 1)" by simp
  then show "p2 (ulp_exp x + 52) \<le> x" and "x < p2 (ulp_exp x + 53)"
    by (simp_all add: add.assoc)
qed

lemma ulp_exp_unique:
  assumes "0 < x" and "p2 (e + 52) \<le> x" and "x < p2 (e + 53)"
  shows "ulp_exp x = e"
proof -
  from assms(3) have "x < p2 (e + 52 + 1)" by (simp add: add.assoc)
  with assms(2) floor_log_p2[OF assms(1), of "e + 52"] have "\<lfloor>log 2 x\<rfloor> = e + 52" by simp
  then show ?thesis using assms(1) by (simp add: ulp_exp_def)
qed

lemma ulp_exp_mono:
  assumes "0 < x" and "x \<le> y"
  shows "ulp_exp x \<le> ulp_exp y"
proof (rule ccontr)
  assume "\<not> ulp_exp x \<le> ulp_exp y"
  then have "ulp_exp y + 53 \<le> ulp_exp x + 52" by simp
  then have "p2 (ulp_exp y + 53) \<le> p2 (ulp_exp x + 52)" by (rule p2_mono)
  moreover from assms have y: "0 < y" by simp
  moreover note ulp_exp_bounds(1)[OF assms(1)] ulp_exp_bounds(2)[OF y] assms(2)
  ultimately show False by linarith
qed

text \<open>The scaled value lies in \<open>[2^52, 2^53)\<close>, its rounding in \<open>[2^52, 2^53]\<close>.\<close>

lemma scaled_bounds:
  assumes "0 < x"
  shows "2 ^ 52 \<le> x / p2 (ulp_exp x)" and "x / p2 (ulp_exp x) < 2 ^ 53"
proof -
  have a: "p2 (ulp_exp x + 52) = p2 (ulp_exp x) * 2 ^ 52"
    by (simp add: p2_add p2_nat)
  have b: "p2 (ulp_exp x + 53) = p2 (ulp_exp x) * 2 ^ 53"
    by (simp add: p2_add p2_nat)
  from ulp_exp_bounds(1)[OF assms] show "2 ^ 52 \<le> x / p2 (ulp_exp x)"
    unfolding a by (simp add: pos_le_divide_eq mult.commute)
  from ulp_exp_bounds(2)[OF assms] show "x / p2 (ulp_exp x) < 2 ^ 53"
    unfolding b by (simp add: pos_divide_less_eq mult.commute)
qed

lemma rhe_scaled_bounds:
  assumes "0 < x"
  shows "2 ^ 52 \<le> rhe (x / p2 (ulp_exp x))" and "rhe (x / p2 (ulp_exp x)) \<le> 2 ^ 53"
proof -
  let ?z = "x / p2 (ulp_exp x)"
  have "rhe (2 ^ 52) \<le> rhe ?z"
    using scaled_bounds(1)[OF assms] by (rule rhe_mono)
  moreover have "rhe (2 ^ 52) = 2 ^ 52"
    using rhe_of_int[of "2 ^ 52"] by simp
  ultimately show "2 ^ 52 \<le> rhe ?z" by simp
  have "rhe ?z \<le> rhe (2 ^ 53)"
    using scaled_bounds(2)[OF assms] by (intro rhe_mono) simp
  moreover have "rhe (2 ^ 53) = 2 ^ 53"
    using rhe_of_int[of "2 ^ 53"] by simp
  ultimately show "rhe ?z \<le> 2 ^ 53" by simp
qed

lemma rnd_pos:
  assumes "0 < x"
  shows "rnd x = real_of_int (rhe (x / p2 (ulp_exp x))) * p2 (ulp_exp x)"
  using assms by (simp add: rnd_def)

lemma rnd_binade:
  assumes "0 < x"
  shows "p2 (ulp_exp x + 52) \<le> rnd x" and "rnd x \<le> p2 (ulp_exp x + 53)"
proof -
  let ?e = "ulp_exp x"
  let ?m = "rhe (x / p2 ?e)"
  have lo: "(2::real) ^ 52 \<le> real_of_int ?m"
    using rhe_scaled_bounds(1)[OF assms] of_int_le_iff[of "2 ^ 52" ?m, where ?'a = real] by simp
  have hi: "real_of_int ?m \<le> 2 ^ 53"
    using rhe_scaled_bounds(2)[OF assms] of_int_le_iff[of ?m "2 ^ 53", where ?'a = real] by simp
  have "p2 (?e + 52) = 2 ^ 52 * p2 ?e" by (simp add: p2_add p2_nat)
  also have "\<dots> \<le> real_of_int ?m * p2 ?e"
    using lo by (rule mult_right_mono) simp
  finally show "p2 (?e + 52) \<le> rnd x" by (simp only: rnd_pos[OF assms])
  have "real_of_int ?m * p2 ?e \<le> 2 ^ 53 * p2 ?e"
    using hi by (rule mult_right_mono) simp
  also have "\<dots> = p2 (?e + 53)" by (simp add: p2_add p2_nat)
  finally show "rnd x \<le> p2 (?e + 53)" by (simp only: rnd_pos[OF assms])
qed

lemma rnd_pos_mono:
  assumes x: "0 < x" and xy: "x \<le> y"
  shows "rnd x \<le> rnd y"
proof -
  from x xy have y: "0 < y" by simp
  have le: "ulp_exp x \<le> ulp_exp y" by (rule ulp_exp_mono[OF x xy])
  show ?thesis
  proof (cases "ulp_exp x = ulp_exp y")
    case True
    have "x / p2 (ulp_exp y) \<le> y / p2 (ulp_exp y)"
      using xy by (rule divide_right_mono) simp
    then have "rhe (x / p2 (ulp_exp y)) \<le> rhe (y / p2 (ulp_exp y))" by (rule rhe_mono)
    then have "real_of_int (rhe (x / p2 (ulp_exp y))) \<le> real_of_int (rhe (y / p2 (ulp_exp y)))"
      by (simp only: of_int_le_iff)
    then have "real_of_int (rhe (x / p2 (ulp_exp y))) * p2 (ulp_exp y)
               \<le> real_of_int (rhe (y / p2 (ulp_exp y))) * p2 (ulp_exp y)"
      by (rule mult_right_mono) simp
    then show ?thesis by (simp only: rnd_pos[OF x] rnd_pos[OF y] True)
  next
    case False
    with le have "ulp_exp x + 53 \<le> ulp_exp y + 52" by simp
    then have "p2 (ulp_exp x + 53) \<le> p2 (ulp_exp y + 52)" by (rule p2_mono)
    with rnd_binade(2)[OF x] rnd_binade(1)[OF y] show ?thesis by linarith
  qed
qed

lemma rnd_nonneg: "0 \<le> x \<Longrightarrow> 0 \<le> rnd x"
proof (cases "x = 0")
  case True
  then show ?thesis by simp
next
  case False
  assume "0 \<le> x"
  with False have x: "0 < x" by simp
  have "0 \<le> p2 (ulp_exp x + 52)" by simp
  with rnd_binade(1)[OF x] show ?thesis by linarith
qed

lemma rnd_mono:
  assumes "x \<le> y"
  shows "rnd x \<le> rnd y"
proof -
  consider "0 < x" | "x \<le> 0" "0 \<le> y" | "y < 0" by linarith
  then show ?thesis
  proof cases
    case 1
    then show ?thesis using assms by (rule rnd_pos_mono)
  next
    case 2
    from 2(1) have "0 \<le> rnd (- x)" by (intro rnd_nonneg) simp
    then have "rnd x \<le> 0" by (simp add: rnd_minus)
    with rnd_nonneg[OF 2(2)] show ?thesis by linarith
  next
    case 3
    then have "0 < - y" by simp
    moreover from assms have "- y \<le> - x" by simp
    ultimately have "rnd (- y) \<le> rnd (- x)" by (rule rnd_pos_mono)
    then show ?thesis by (simp add: rnd_minus)
  qed
qed

lemma rnd_exact_pos:
  assumes m: "0 < m" and small: "m < 2 ^ 53"
  shows "rnd (real_of_int m * p2 j) = real_of_int m * p2 j"
proof -
  let ?x = "real_of_int m * p2 j"
  let ?b = "bitlen m"
  let ?e = "?b + j - 53"
  have x: "0 < ?x" using m by simp
  from small have b53: "?b \<le> 53" using bitlen_le_iff_power[of m 53] by simp
  have "p2 (?e + 52) = p2 (?b - 1) * p2 j"
    by (simp add: p2_add[symmetric] algebra_simps)
  also have "\<dots> \<le> ?x"
    using bitlen_p2_bounds(1)[OF m] by (rule mult_right_mono) simp
  finally have lo: "p2 (?e + 52) \<le> ?x" .
  have "?x < p2 ?b * p2 j"
    using bitlen_p2_bounds(2)[OF m] by (rule mult_strict_right_mono) simp
  also have "\<dots> = p2 (?e + 53)"
    by (simp add: p2_add[symmetric] algebra_simps)
  finally have hi: "?x < p2 (?e + 53)" .
  have e: "ulp_exp ?x = ?e" by (rule ulp_exp_unique[OF x lo hi])
  have nn: "0 \<le> 53 - ?b" using b53 by simp
  have "p2 j = p2 ((53 - ?b) + ?e)" by (simp add: algebra_simps)
  also have "\<dots> = p2 (53 - ?b) * p2 ?e" by (rule p2_add)
  also have "\<dots> = 2 ^ nat (53 - ?b) * p2 ?e" by (simp only: p2_nat[OF nn])
  finally have pj: "p2 j = 2 ^ nat (53 - ?b) * p2 ?e" .
  have "?x / p2 ?e = real_of_int m * 2 ^ nat (53 - ?b)"
    unfolding pj by simp
  also have "\<dots> = real_of_int (m * 2 ^ nat (53 - ?b))" by simp
  finally have z: "?x / p2 ?e = real_of_int (m * 2 ^ nat (53 - ?b))" .
  have "rnd ?x = real_of_int (rhe (?x / p2 ?e)) * p2 ?e"
    using rnd_pos[OF x] by (simp only: e)
  also have "\<dots> = real_of_int (m * 2 ^ nat (53 - ?b)) * p2 ?e"
    by (simp only: z rhe_of_int)
  also have "\<dots> = real_of_int m * (2 ^ nat (53 - ?b) * p2 ?e)" by simp
  also have "\<dots> = ?x" by (simp only: pj[symmetric])
  finally show ?thesis .
qed

lemma rnd_exact:
  assumes "\<bar>m\<bar> < 2 ^ 53"
  shows "rnd (real_of_int m * p2 j) = real_of_int m * p2 j"
proof -
  consider "0 < m" | "m = 0" | "m < 0" by linarith
  then show ?thesis
  proof cases
    case 1
    with assms show ?thesis by (intro rnd_exact_pos) simp_all
  next
    case 2
    then show ?thesis by simp
  next
    case 3
    with assms have "rnd (real_of_int (- m) * p2 j) = real_of_int (- m) * p2 j"
      by (intro rnd_exact_pos) simp_all
    then have "rnd (- (real_of_int m * p2 j)) = - (real_of_int m * p2 j)" by simp
    then show ?thesis by (simp add: rnd_minus)
  qed
qed

lemma rnd_of_int:
  assumes "\<bar>k\<bar> < 2 ^ 53"
  shows "rnd (real_of_int k) = real_of_int k"
  using rnd_exact[OF assms, of 0] by simp

lemma rnd_error:
  "\<bar>rnd x - x\<bar> \<le> \<bar>x\<bar> * p2 (- 53)"
proof -
  have pos: "\<bar>rnd x - x\<bar> \<le> x * p2 (- 53)" if x: "0 < x" for x
  proof -
    let ?e = "ulp_exp x"
    let ?z = "x / p2 ?e"
    have xz: "x = ?z * p2 ?e" by simp
    have "rnd x - x = (real_of_int (rhe ?z) - ?z) * p2 ?e"
      by (simp add: rnd_pos[OF x] algebra_simps)
    then have "\<bar>rnd x - x\<bar> = \<bar>real_of_int (rhe ?z) - ?z\<bar> * p2 ?e"
      by (simp add: abs_mult)
    also have "\<dots> \<le> (1 / 2) * p2 ?e"
      using rhe_close[of ?z] by (rule mult_right_mono) simp
    also have "\<dots> = p2 (?e + 52) * p2 (- 53)"
    proof -
      have half: "p2 (- 1) = 1 / 2" using p2_neg[of "- 1"] by simp
      have "p2 (?e + 52) * p2 (- 53) = p2 ((?e + 52) + (- 53))" by (rule p2_add[symmetric])
      also have "\<dots> = p2 ((- 1) + ?e)" by (simp add: algebra_simps)
      also have "\<dots> = p2 (- 1) * p2 ?e" by (rule p2_add)
      finally show ?thesis by (simp only: half)
    qed
    also have "\<dots> \<le> x * p2 (- 53)"
      using ulp_exp_bounds(1)[OF x] by (rule mult_right_mono) simp
    finally show ?thesis .
  qed
  consider "0 < x" | "x = 0" | "x < 0" by linarith
  then show ?thesis
  proof cases
    case 1
    with pos[OF 1] show ?thesis by simp
  next
    case 2
    then show ?thesis by simp
  next
    case 3
    then have "0 < - x" by simp
    from pos[OF this] have "\<bar>rnd (- x) - (- x)\<bar> \<le> (- x) * p2 (- 53)" .
    moreover have "\<bar>rnd (- x) - (- x)\<bar> = \<bar>rnd x - x\<bar>"
      by (simp add: rnd_minus abs_minus_commute)
    ultimately show ?thesis using 3 by simp
  qed
qed

lemma trunc_nonneg:
  assumes "0 \<le> valof x"
  shows "trunc x = \<lfloor>valof x\<rfloor>"
proof -
  have m: "0 \<le> mantissa x"
  proof (rule ccontr)
    assume "\<not> 0 \<le> mantissa x"
    then have "real_of_int (mantissa x) < 0" by simp
    then have "valof x < 0" unfolding valof_def by (rule mult_neg_pos) simp
    with assms show False by simp
  qed
  show ?thesis
  proof (cases "0 \<le> exponent x")
    case True
    have "valof x = real_of_int (mantissa x * 2 ^ nat (exponent x))"
      by (simp add: valof_def p2_nat[OF True])
    then have "\<lfloor>valof x\<rfloor> = mantissa x * 2 ^ nat (exponent x)" by (simp only: floor_of_int)
    with True show ?thesis by (simp add: trunc_def)
  next
    case False
    then have neg: "exponent x < 0" by simp
    have "valof x = real_of_int (mantissa x) / real_of_int (2 ^ nat (- exponent x))"
      by (simp add: valof_def p2_neg[OF neg])
    then have "\<lfloor>valof x\<rfloor> = mantissa x div 2 ^ nat (- exponent x)"
      by (simp only: floor_divide_of_int_eq)
    moreover have "trunc x = sgn (mantissa x) * (mantissa x div 2 ^ nat (- exponent x))"
      using False m by (simp add: trunc_def)
    moreover have "sgn (mantissa x) * (mantissa x div 2 ^ nat (- exponent x)) = mantissa x div 2 ^ nat (- exponent x)"
      using m by (cases "mantissa x = 0") (simp_all add: sgn_if)
    ultimately show ?thesis by simp
  qed
qed

lemma trunc_mono_nonneg:
  assumes "0 \<le> valof x" and "valof x \<le> valof y"
  shows "trunc x \<le> trunc y"
proof -
  from assms have "0 \<le> valof y" by simp
  with assms show ?thesis by (simp add: trunc_nonneg floor_mono)
qed
section \<open>Results beyond the float range\<close>

lemma overflows_valof: "overflows x \<longleftrightarrow> p2 1024 \<le> \<bar>valof x\<bar>"
proof (cases "0 \<le> exponent x")
  case True
  have "\<bar>valof x\<bar> = real_of_int (\<bar>mantissa x\<bar> * 2 ^ nat (exponent x))"
    by (simp add: valof_def abs_mult p2_nat[OF True])
  moreover have "p2 1024 = real_of_int (2 ^ 1024)" using p2_nat[of 1024] by simp
  ultimately have "p2 1024 \<le> \<bar>valof x\<bar> \<longleftrightarrow> 2 ^ 1024 \<le> \<bar>mantissa x\<bar> * 2 ^ nat (exponent x)"
    by (simp only: of_int_le_iff)
  with True show ?thesis by (simp only: overflows_def if_True)
next
  case False
  then have neg: "exponent x < 0" by simp
  let ?n = "nat (- exponent x)"
  have v: "\<bar>valof x\<bar> = real_of_int \<bar>mantissa x\<bar> / 2 ^ ?n"
    by (simp add: valof_def abs_mult p2_neg[OF neg])
  have p: "p2 1024 = real_of_int (2 ^ 1024)" using p2_nat[of 1024] by simp
  have "p2 1024 \<le> \<bar>valof x\<bar> \<longleftrightarrow> real_of_int (2 ^ 1024) * 2 ^ ?n \<le> real_of_int \<bar>mantissa x\<bar>"
    unfolding v p by (simp only: pos_le_divide_eq[of "2 ^ ?n", OF zero_less_power[OF zero_less_numeral]])
  also have "real_of_int (2 ^ 1024) * 2 ^ ?n = real_of_int (2 ^ 1024 * 2 ^ ?n)" by simp
  also have "real_of_int (2 ^ 1024 * 2 ^ ?n) \<le> real_of_int \<bar>mantissa x\<bar>
             \<longleftrightarrow> 2 ^ 1024 * 2 ^ ?n \<le> \<bar>mantissa x\<bar>" by (simp only: of_int_le_iff)
  finally show ?thesis using False by (simp only: overflows_def if_False)
qed

lemma float_of_int_ok:
  assumes "\<bar>rnd (real_of_int i)\<bar> < p2 1024"
  shows "float_of_int i = Inr (float_val i)"
  using assms by (simp add: float_of_int_def overflows_valof valof_float_val)


lemma truediv_ok:
  assumes "0 < b" and "\<bar>rnd (real_of_int a / real_of_int b)\<bar> < p2 1024"
  shows "truediv a b = Inr (round_ratio a b)"
  using assms by (simp add: truediv_def overflows_valof round_ratio_rnd Let_def)

lemma int_of_float_ok:
  assumes "\<bar>valof x\<bar> < p2 1024"
  shows "int_of_float x = Inr (trunc x)"
  using assms by (simp add: int_of_float_def overflows_valof)

lemma rnd_abs: "\<bar>rnd x\<bar> = rnd \<bar>x\<bar>"
proof (cases "0 \<le> x")
  case True
  then show ?thesis using rnd_nonneg[OF True] by simp
next
  case False
  then have "0 \<le> - x" by simp
  from rnd_nonneg[OF this] False show ?thesis by (simp add: rnd_minus)
qed

lemma rnd_abs_mono:
  assumes "\<bar>x\<bar> \<le> \<bar>y\<bar>"
  shows "\<bar>rnd x\<bar> \<le> \<bar>rnd y\<bar>"
  unfolding rnd_abs using assms by (rule rnd_mono)

text \<open>The integers that convert to a float are those below \<open>2^1024 - 2^970\<close> in magnitude.\<close>

lemma rhe_below_half:
  assumes "z < real_of_int k - 1 / 2"
  shows "rhe z \<le> k - 1"
proof (cases "\<lfloor>z\<rfloor> \<le> k - 2")
  case True
  with rhe_bounds(2)[of z] show ?thesis by linarith
next
  case False
  from assms have "z < real_of_int k" by linarith
  then have "\<lfloor>z\<rfloor> < k" by (simp only: floor_less_iff)
  with False have fl: "\<lfloor>z\<rfloor> = k - 1" by linarith
  have "frac z = z - real_of_int (k - 1)" by (simp only: frac_def fl)
  with assms have "frac z < 1 / 2" by simp
  then show ?thesis by (simp add: rhe_def fl)
qed

lemma rnd_top_binade:
  assumes lo: "p2 1023 \<le> x" and hi: "x < p2 1024 - p2 970"
  shows "rnd x < p2 1024"
proof -
  have x: "0 < x" using lo p2_pos[of 1023] by linarith
  have "x < p2 1024" using hi p2_pos[of 970] by linarith
  then have e: "ulp_exp x = 971" using lo by (intro ulp_exp_unique[OF x]) simp_all
  define z where "z = x / p2 971"
  have p1024: "p2 1024 = real_of_int (2 ^ 53) * p2 971" using p2_add[of 53 971] by (simp add: p2_nat)
  have "p2 971 = 2 * p2 970" using p2_add[of 1 970] by (simp add: p2_nat)
  then have "p2 1024 - p2 970 = (real_of_int (2 ^ 53) - 1 / 2) * p2 971"
    unfolding p1024 by (simp only: left_diff_distrib)
  with hi have "x < (real_of_int (2 ^ 53) - 1 / 2) * p2 971" by (simp only:)
  then have "z < real_of_int (2 ^ 53) - 1 / 2"
    unfolding z_def by (simp only: pos_divide_less_eq[OF p2_pos])
  then have "rhe z \<le> 2 ^ 53 - 1" by (rule rhe_below_half)
  then have "real_of_int (rhe z) \<le> real_of_int (2 ^ 53 - 1)" by (simp only: of_int_le_iff)
  then have "real_of_int (rhe z) * p2 971 \<le> real_of_int (2 ^ 53 - 1) * p2 971"
    by (rule mult_right_mono) simp
  also have "\<dots> < real_of_int (2 ^ 53) * p2 971"
    by (rule mult_strict_right_mono) simp_all
  also have "\<dots> = p2 1024" by (simp only: p1024)
  finally show ?thesis using rnd_pos[OF x] by (simp only: e z_def)
qed

lemma rnd_in_range:
  assumes "0 \<le> x" and "x < p2 1024 - p2 970"
  shows "rnd x < p2 1024"
proof (cases "p2 1023 \<le> x")
  case True
  then show ?thesis using assms(2) by (rule rnd_top_binade)
next
  case False
  then have "x \<le> p2 1023" by simp
  then have "rnd x \<le> rnd (p2 1023)" by (rule rnd_mono)
  also have "rnd (p2 1023) = p2 1023" using rnd_exact[of 1 1023] by simp
  also have "\<dots> < p2 1024" by (rule p2_strict_mono) simp
  finally show ?thesis .
qed

lemma int_in_range:
  assumes "\<bar>n\<bar> < 2 ^ 1024 - 2 ^ 970"
  shows "\<bar>rnd (real_of_int n)\<bar> < p2 1024"
proof -
  have "real_of_int \<bar>n\<bar> < real_of_int (2 ^ 1024 - 2 ^ 970)"
    using assms by (simp only: of_int_less_iff)
  also have "real_of_int (2 ^ 1024 - 2 ^ 970) = p2 1024 - p2 970"
    using p2_nat[of 1024] p2_nat[of 970] by simp
  finally have "\<bar>real_of_int n\<bar> < p2 1024 - p2 970" by simp
  then have "rnd \<bar>real_of_int n\<bar> < p2 1024" by (intro rnd_in_range) simp_all
  then show ?thesis by (simp only: rnd_abs)
qed


section \<open>The radii\<close>

lemma and_then_Inr [simp]: "and_then (Inr v) f = f v"
  by (simp add: and_then_def)

lemma and_then_Inl [simp]: "and_then (Inl e) f = Inl e"
  by (simp add: and_then_def)

lemma scaled_nonneg:
  assumes c: "0 \<le> valof c" and ss: "0 \<le> ss"
  shows "0 \<le> valof (fmul c (float_val ss))"
proof -
  from ss have "0 \<le> rnd (real_of_int ss)" by (intro rnd_nonneg) simp
  with c have "0 \<le> valof c * rnd (real_of_int ss)" by (rule mult_nonneg_nonneg)
  then have "0 \<le> rnd (valof c * rnd (real_of_int ss))" by (rule rnd_nonneg)
  then show ?thesis by (simp only: valof_fmul valof_float_val)
qed

lemma scaled_mono:
  assumes cd: "valof c \<le> valof d" and ss: "0 \<le> ss"
  shows "valof (fmul c (float_val ss)) \<le> valof (fmul d (float_val ss))"
proof -
  from ss have "0 \<le> rnd (real_of_int ss)" by (intro rnd_nonneg) simp
  with cd have "valof c * rnd (real_of_int ss) \<le> valof d * rnd (real_of_int ss)"
    by (rule mult_right_mono)
  then have "rnd (valof c * rnd (real_of_int ss)) \<le> rnd (valof d * rnd (real_of_int ss))"
    by (rule rnd_mono)
  then show ?thesis by (simp only: valof_fmul valof_float_val)
qed

lemma scaled_arg_mono:
  assumes c: "0 \<le> valof c" and le: "a \<le> b"
  shows "valof (fmul c (float_val a)) \<le> valof (fmul c (float_val b))"
proof -
  from le have "rnd (real_of_int a) \<le> rnd (real_of_int b)" by (intro rnd_mono) simp
  with c have "valof c * rnd (real_of_int a) \<le> valof c * rnd (real_of_int b)"
    by (intro mult_left_mono)
  then have "rnd (valof c * rnd (real_of_int a)) \<le> rnd (valof c * rnd (real_of_int b))"
    by (rule rnd_mono)
  then show ?thesis by (simp only: valof_fmul valof_float_val)
qed

lemma trunc_scaled_nonneg:
  assumes "0 \<le> valof c" and "0 \<le> ss"
  shows "0 \<le> trunc (fmul c (float_val ss))"
  using scaled_nonneg[OF assms] by (simp add: trunc_nonneg)

lemma lit_values:
  "valof lit_0_41 = 7385903388887613 / 2 ^ 54"
  "valof lit_0_295 = 5314247560297185 / 2 ^ 54"
  "valof lit_0_01 = 5764607523034235 / 2 ^ 59"
  "valof lit_0_05 = 3602879701896397 / 2 ^ 56"
  "valof lit_0_23 = 8286623314361713 / 2 ^ 55"
  "valof lit_0_21 = 7566047373982433 / 2 ^ 55"
  by (simp_all add: valof_def p2_neg lit_0_41_def lit_0_295_def lit_0_01_def lit_0_05_def
        lit_0_23_def lit_0_21_def)

lemma lit_nonneg:
  "0 \<le> valof lit_0_41" "0 \<le> valof lit_0_295" "0 \<le> valof lit_0_01"
  "0 \<le> valof lit_0_05" "0 \<le> valof lit_0_23" "0 \<le> valof lit_0_21"
  by (simp_all only: lit_values) simp_all

lemma lit_0_01_le_0_295: "valof lit_0_01 \<le> valof lit_0_295"
  by (simp only: lit_values) simp

lemma r_outer_nonneg: "0 \<le> ss \<Longrightarrow> 0 \<le> r_outer ss"
  unfolding r_outer_def by (rule trunc_scaled_nonneg[OF lit_nonneg(1)])

lemma r_inner_nonneg: "0 \<le> ss \<Longrightarrow> 0 \<le> r_inner ss"
  unfolding r_inner_def by (rule trunc_scaled_nonneg[OF lit_nonneg(2)])

lemma inner_r_nonneg:
  assumes "0 \<le> ss"
  shows "0 \<le> inner_r ss"
proof -
  have "trunc (fmul lit_0_01 (float_val ss)) \<le> trunc (fmul lit_0_295 (float_val ss))"
    by (rule trunc_mono_nonneg[OF scaled_nonneg[OF lit_nonneg(3) assms]
          scaled_mono[OF lit_0_01_le_0_295 assms]])
  then show ?thesis by (simp add: inner_r_def r_inner_def)
qed

lemma inner_r_le: "0 \<le> ss \<Longrightarrow> inner_r ss \<le> r_inner ss"
  using trunc_scaled_nonneg[OF lit_nonneg(3), of ss] by (simp add: inner_r_def)

lemma disc_box_ok:
  assumes "0 \<le> r"
  shows "ellipse im (disc_box x y r) c = Inr (Ellipse im (disc_box x y r) c)"
proof -
  from assms have r: "0 \<le> rnd (real_of_int r)" by (intro rnd_nonneg) simp
  have "fle (fsub v (float_val r)) (fadd v (float_val r))" for v
  proof -
    have "valof v - rnd (real_of_int r) \<le> valof v + rnd (real_of_int r)" using r by simp
    then have "rnd (valof v - rnd (real_of_int r)) \<le> rnd (valof v + rnd (real_of_int r))"
      by (rule rnd_mono)
    then show ?thesis by (simp only: fle_valof valof_fsub valof_fadd valof_float_val)
  qed
  then show ?thesis by (simp add: ellipse_def disc_box_def)
qed

lemma hundredth_99_lt_1: "valof (fmul lit_0_01 (float_val 99)) < 1"
proof -
  have "fmul lit_0_01 (float_val 99) = Double 8917127262193582 (- 53)"
    by code_simp
  then show ?thesis by (simp add: valof_def p2_neg)
qed

lemma hundredth_zero:
  assumes "0 \<le> ss" and "ss \<le> 99"
  shows "trunc (fmul lit_0_01 (float_val ss)) = 0"
proof -
  let ?v = "valof (fmul lit_0_01 (float_val ss))"
  have lo: "0 \<le> ?v" by (rule scaled_nonneg[OF lit_nonneg(3) assms(1)])
  have "?v \<le> valof (fmul lit_0_01 (float_val 99))"
    by (rule scaled_arg_mono[OF lit_nonneg(3) assms(2)])
  with hundredth_99_lt_1 have hi: "?v < 1" by linarith
  from lo hi have "\<lfloor>?v\<rfloor> = 0" by (simp add: floor_eq_iff)
  with lo show ?thesis by (simp add: trunc_nonneg)
qed

lemma hundredth_pos:
  assumes "100 \<le> ss"
  shows "1 \<le> trunc (fmul lit_0_01 (float_val ss))"
proof -
  let ?v = "valof (fmul lit_0_01 (float_val ss))"
  have r100: "rnd (real_of_int 100) = real_of_int 100" by (rule rnd_of_int) simp
  have r1: "rnd (real_of_int 1) = real_of_int 1" by (rule rnd_of_int) simp
  have "(1::real) \<le> valof lit_0_01 * 100" by (simp only: lit_values) simp
  then have "rnd 1 \<le> rnd (valof lit_0_01 * 100)" by (rule rnd_mono)
  with r1 have "1 \<le> rnd (valof lit_0_01 * 100)" by simp
  also have "rnd (valof lit_0_01 * 100) = valof (fmul lit_0_01 (float_val 100))"
    using r100 by (simp add: valof_fmul valof_float_val)
  also have "\<dots> \<le> ?v" by (rule scaled_arg_mono[OF lit_nonneg(3) assms])
  finally have one: "1 \<le> ?v" .
  then have "0 \<le> ?v" by simp
  then have "trunc (fmul lit_0_01 (float_val ss)) = \<lfloor>?v\<rfloor>" by (rule trunc_nonneg)
  moreover from one have "1 \<le> \<lfloor>?v\<rfloor>" by (simp add: le_floor_iff)
  ultimately show ?thesis by simp
qed

lemma inner_r_strict:
  assumes "0 \<le> ss"
  shows "inner_r ss < r_inner ss \<longleftrightarrow> 100 \<le> ss"
proof (cases "100 \<le> ss")
  case True
  with hundredth_pos[OF True] show ?thesis by (simp add: inner_r_def)
next
  case False
  then have "ss \<le> 99" by simp
  from hundredth_zero[OF assms this] False show ?thesis by (simp add: inner_r_def)
qed

section \<open>The gradient\<close>

lemma rnd_unit:
  assumes "0 \<le> q" and "q \<le> 1"
  shows "0 \<le> rnd q" and "rnd q \<le> 1"
proof -
  show "0 \<le> rnd q" using assms(1) by (rule rnd_nonneg)
  have "rnd q \<le> rnd 1" using assms(2) by (rule rnd_mono)
  moreover have "rnd 1 = 1" using rnd_of_int[of 1] by simp
  ultimately show "rnd q \<le> 1" by simp
qed

lemma rnd_byte: "byte v \<Longrightarrow> rnd (real_of_int v) = real_of_int v"
  by (rule rnd_of_int) (simp add: byte_def)

lemma byte_diff: "byte t \<Longrightarrow> byte b \<Longrightarrow> \<bar>b - t\<bar> \<le> 255"
  unfolding byte_def by linarith

lemma byte_diff_real:
  assumes "byte t" and "byte b"
  shows "\<bar>real_of_int (b - t)\<bar> \<le> 255"
proof -
  have "real_of_int \<bar>b - t\<bar> \<le> real_of_int 255"
    using byte_diff[OF assms] by (simp only: of_int_le_iff)
  then show ?thesis by simp
qed

lemma rnd_byte_diff:
  assumes "byte t" and "byte b"
  shows "rnd (real_of_int (b - t)) = real_of_int (b - t)"
proof (rule rnd_of_int)
  from byte_diff[OF assms] show "\<bar>b - t\<bar> < 2 ^ 53" by simp
qed

text \<open>The float value of the interpolated channel, for a position \<open>q\<close> between 0 and 1.\<close>

lemma lerp_between:
  assumes t: "byte t" and b: "byte b" and q: "0 \<le> q" "q \<le> 1"
  defines "p \<equiv> rnd (real_of_int (b - t) * rnd q)"
  shows "min (real_of_int t) (real_of_int b) \<le> real_of_int t + p"
    and "real_of_int t + p \<le> max (real_of_int t) (real_of_int b)"
    and "\<bar>p\<bar> \<le> 255"
proof -
  let ?d = "real_of_int (b - t)"
  note u = rnd_unit[OF q]
  have d: "rnd ?d = ?d" by (rule rnd_byte_diff[OF t b])
  have pd: "(0 \<le> ?d \<longrightarrow> 0 \<le> p \<and> p \<le> ?d) \<and> (?d \<le> 0 \<longrightarrow> ?d \<le> p \<and> p \<le> 0)"
  proof (intro conjI impI)
    assume nn: "0 \<le> ?d"
    then have "0 \<le> ?d * rnd q" using u(1) by (rule mult_nonneg_nonneg)
    then show "0 \<le> p" unfolding p_def by (rule rnd_nonneg)
    have "?d * rnd q \<le> ?d * 1" using u(2) nn by (rule mult_left_mono)
    then have "rnd (?d * rnd q) \<le> rnd ?d" by (intro rnd_mono) simp
    then show "p \<le> ?d" unfolding p_def d .
  next
    assume np: "?d \<le> 0"
    have "?d * 1 \<le> ?d * rnd q" using u(2) np by (rule mult_left_mono_neg)
    then have "rnd ?d \<le> rnd (?d * rnd q)" by (intro rnd_mono) simp
    then show "?d \<le> p" unfolding p_def d .
    have "?d * rnd q \<le> 0" using np u(1) by (rule mult_nonpos_nonneg)
    then have "rnd (?d * rnd q) \<le> rnd 0" by (rule rnd_mono)
    then show "p \<le> 0" unfolding p_def by simp
  qed
  from pd show "min (real_of_int t) (real_of_int b) \<le> real_of_int t + p"
    by (cases "0 \<le> ?d") auto
  from pd show "real_of_int t + p \<le> max (real_of_int t) (real_of_int b)"
    by (cases "0 \<le> ?d") auto
  have "\<bar>?d\<bar> \<le> 255" by (rule byte_diff_real[OF t b])
  with pd show "\<bar>p\<bar> \<le> 255" by (cases "0 \<le> ?d") auto
qed

lemma lerp_value:
  assumes t: "byte t" and b: "byte b" and q: "0 \<le> q" "q \<le> 1"
  defines "s \<equiv> rnd (real_of_int t + rnd (real_of_int (b - t) * rnd q))"
  shows "real_of_int (min t b) \<le> s" and "s \<le> real_of_int (max t b)"
    and "\<bar>s - (real_of_int t + real_of_int (b - t) * q)\<bar> < 1"
proof -
  let ?d = "real_of_int (b - t)"
  let ?p = "rnd (?d * rnd q)"
  let ?u = "real_of_int t + ?p"
  let ?eps = "p2 (- 53)"
  note btw = lerp_between[OF t b q]
  have mn: "byte (min t b)" and mx: "byte (max t b)" using t b by (simp_all add: byte_def min_def max_def)
  have "rnd (real_of_int (min t b)) \<le> rnd ?u"
    using btw(1) by (intro rnd_mono) (simp add: min_def split: if_splits)
  then show lo: "real_of_int (min t b) \<le> s" unfolding s_def by (simp only: rnd_byte[OF mn])
  have "rnd ?u \<le> rnd (real_of_int (max t b))"
    using btw(2) by (intro rnd_mono) (simp add: max_def split: if_splits)
  then show hi: "s \<le> real_of_int (max t b)" unfolding s_def by (simp only: rnd_byte[OF mx])
  have eps: "?eps = 1 / 2 ^ 53" using p2_neg[of "- 53"] by simp
  have u255: "\<bar>?u\<bar> \<le> 255"
  proof -
    have "0 \<le> real_of_int (min t b)" "real_of_int (max t b) \<le> 255"
      using mn mx by (simp_all add: byte_def)
    moreover have "real_of_int (min t b) \<le> ?u" using btw(1) by (simp add: min_def split: if_splits)
    moreover have "?u \<le> real_of_int (max t b)" using btw(2) by (simp add: max_def split: if_splits)
    ultimately show ?thesis by linarith
  qed
  have d255: "\<bar>?d\<bar> \<le> 255" by (rule byte_diff_real[OF t b])
  have e1: "\<bar>s - ?u\<bar> \<le> 255 * ?eps"
  proof -
    have "\<bar>rnd ?u - ?u\<bar> \<le> \<bar>?u\<bar> * ?eps" by (rule rnd_error)
    also have "\<dots> \<le> 255 * ?eps" using u255 by (rule mult_right_mono) simp
    finally show ?thesis unfolding s_def .
  qed
  have a255: "\<bar>?d * rnd q\<bar> \<le> 255"
  proof -
    have "\<bar>?d * rnd q\<bar> = \<bar>?d\<bar> * rnd q" using rnd_unit(1)[OF q] by (simp add: abs_mult)
    also have "\<dots> \<le> \<bar>?d\<bar> * 1" using rnd_unit(2)[OF q] by (intro mult_left_mono) simp_all
    finally show ?thesis using d255 by simp
  qed
  have e2: "\<bar>?p - ?d * rnd q\<bar> \<le> 255 * ?eps"
  proof -
    have "\<bar>?p - ?d * rnd q\<bar> \<le> \<bar>?d * rnd q\<bar> * ?eps" by (rule rnd_error)
    also have "\<dots> \<le> 255 * ?eps" using a255 by (rule mult_right_mono) simp
    finally show ?thesis .
  qed
  have e3: "\<bar>?d * rnd q - ?d * q\<bar> \<le> 255 * ?eps"
  proof -
    have "\<bar>rnd q - q\<bar> \<le> \<bar>q\<bar> * ?eps" by (rule rnd_error)
    also have "\<dots> \<le> 1 * ?eps" using q by (intro mult_right_mono) simp_all
    finally have rq: "\<bar>rnd q - q\<bar> \<le> ?eps" by simp
    have "\<bar>?d * rnd q - ?d * q\<bar> = \<bar>?d\<bar> * \<bar>rnd q - q\<bar>"
      by (simp add: abs_mult[symmetric] right_diff_distrib)
    also have "\<dots> \<le> 255 * ?eps"
      using d255 rq by (intro mult_mono) simp_all
    finally show ?thesis .
  qed
  have "\<bar>s - (real_of_int t + ?d * q)\<bar> \<le> \<bar>s - ?u\<bar> + \<bar>?p - ?d * rnd q\<bar> + \<bar>?d * rnd q - ?d * q\<bar>"
    by linarith
  also have "\<dots> \<le> 765 * ?eps" using e1 e2 e3 by linarith
  also have "\<dots> < 1" unfolding eps by simp
  finally show "\<bar>s - (real_of_int t + ?d * q)\<bar> < 1" .
qed

lemma code_lerp_floor:
  assumes t: "byte t" and b: "byte b" and y: "0 \<le> y" "y \<le> max 1 (height - 1)"
  shows "code_lerp height t b y =
           \<lfloor>rnd (real_of_int t + rnd (real_of_int (b - t)
                  * rnd (real_of_int y / real_of_int (max 1 (height - 1)))))\<rfloor>"
proof -
  let ?D = "max 1 (height - 1)"
  let ?q = "real_of_int y / real_of_int ?D"
  let ?tt = "round_ratio y ?D"
  let ?arg = "fadd (float_val t) (fmul (float_val (b - t)) ?tt)"
  have D: "0 < ?D" by simp
  have q0: "0 \<le> ?q" using y(1) D by simp
  have q1: "?q \<le> 1" using y(2) D by simp
  have v: "valof ?arg = rnd (real_of_int t + rnd (real_of_int (b - t) * rnd ?q))"
    by (simp only: valof_fadd valof_fmul valof_float_val round_ratio_rnd[OF D]
          rnd_byte[OF t] rnd_byte_diff[OF t b])
  have "0 \<le> real_of_int (min t b)" using t b by (simp add: byte_def)
  with lerp_value(1)[OF t b q0 q1] have "0 \<le> valof ?arg" unfolding v by linarith
  then have "trunc ?arg = \<lfloor>valof ?arg\<rfloor>" by (rule trunc_nonneg)
  then show ?thesis unfolding code_lerp_def v .
qed

lemma exact_lerp_floor:
  "exact_lerp height t b y =
     \<lfloor>real_of_int t + real_of_int (b - t) * (real_of_int y / real_of_int (max 1 (height - 1)))\<rfloor>"
proof -
  let ?D = "max 1 (height - 1)"
  have D: "real_of_int ?D \<noteq> 0" by simp
  have "real_of_int t + real_of_int (b - t) * (real_of_int y / real_of_int ?D)
        = real_of_int (t * ?D + (b - t) * y) / real_of_int ?D"
    using D by (simp add: field_simps)
  then show ?thesis
    unfolding exact_lerp_def by (simp only: floor_divide_of_int_eq)
qed

lemma code_lerp_range:
  assumes t: "byte t" and b: "byte b" and y: "0 \<le> y" "y \<le> max 1 (height - 1)"
  shows "min t b \<le> code_lerp height t b y" and "code_lerp height t b y \<le> max t b"
proof -
  let ?D = "max 1 (height - 1)"
  let ?q = "real_of_int y / real_of_int ?D"
  have D: "0 < ?D" by simp
  have q0: "0 \<le> ?q" using y(1) D by simp
  have q1: "?q \<le> 1" using y(2) D by simp
  note fl = code_lerp_floor[OF t b y]
  from lerp_value(1)[OF t b q0 q1] show "min t b \<le> code_lerp height t b y"
    unfolding fl by (simp only: le_floor_iff)
  from lerp_value(2)[OF t b q0 q1] show "code_lerp height t b y \<le> max t b"
    unfolding fl by (simp only: floor_le_iff)
qed

lemma code_lerp_byte:
  assumes t: "byte t" and b: "byte b" and y: "0 \<le> y" "y \<le> max 1 (height - 1)"
  shows "clip8 (code_lerp height t b y) = code_lerp height t b y"
  using code_lerp_range[OF assms] t b by (simp add: clip8_def byte_def min_def max_def split: if_splits)

lemma floor_near:
  fixes s x :: real
  assumes "\<bar>s - x\<bar> < 1"
  shows "\<bar>\<lfloor>s\<rfloor> - \<lfloor>x\<rfloor>\<bar> \<le> 1"
proof -
  from assms have "s \<le> x + 1" "x \<le> s + 1" by linarith+
  then have "\<lfloor>s\<rfloor> \<le> \<lfloor>x + 1\<rfloor>" "\<lfloor>x\<rfloor> \<le> \<lfloor>s + 1\<rfloor>" by (simp_all only: floor_mono)
  then show ?thesis by simp
qed

lemma code_lerp_close:
  assumes t: "byte t" and b: "byte b" and y: "0 \<le> y" "y \<le> max 1 (height - 1)"
  shows "\<bar>code_lerp height t b y - exact_lerp height t b y\<bar> \<le> 1"
proof -
  let ?D = "max 1 (height - 1)"
  let ?q = "real_of_int y / real_of_int ?D"
  have D: "0 < ?D" by simp
  have q0: "0 \<le> ?q" using y(1) D by simp
  have q1: "?q \<le> 1" using y(2) D by simp
  from lerp_value(3)[OF t b q0 q1] show ?thesis
    unfolding code_lerp_floor[OF t b y] exact_lerp_floor by (rule floor_near)
qed

lemma code_lerp_top:
  assumes t: "byte t" and b: "byte b"
  shows "code_lerp height t b 0 = t"
proof -
  have "code_lerp height t b 0 = \<lfloor>rnd (real_of_int t)\<rfloor>"
    by (simp add: code_lerp_floor[OF t b])
  then show ?thesis by (simp add: rnd_byte[OF t])
qed

lemma code_lerp_bottom:
  assumes t: "byte t" and b: "byte b" and h: "2 \<le> height"
  shows "code_lerp height t b (height - 1) = b"
proof -
  from h have D: "max 1 (height - 1) = height - 1" by simp
  have r1: "rnd 1 = 1" using rnd_of_int[of 1] by simp
  have q: "real_of_int (height - 1) / real_of_int (max 1 (height - 1)) = 1"
    using h by (simp add: D)
  have "code_lerp height t b (height - 1)
        = \<lfloor>rnd (real_of_int t + rnd (real_of_int (b - t)
                  * rnd (real_of_int (height - 1) / real_of_int (max 1 (height - 1)))))\<rfloor>"
    using h by (intro code_lerp_floor[OF t b]) simp_all
  also have "\<dots> = \<lfloor>rnd (real_of_int t + rnd (real_of_int (b - t)))\<rfloor>"
    by (simp only: q r1 mult_1_right)
  also have "\<dots> = \<lfloor>rnd (real_of_int t + real_of_int (b - t))\<rfloor>"
    by (simp only: rnd_byte_diff[OF t b])
  also have "real_of_int t + real_of_int (b - t) = real_of_int b" by simp
  also have "\<lfloor>rnd (real_of_int b)\<rfloor> = b" by (simp add: rnd_byte[OF b])
  finally show ?thesis .
qed

lemma gradient_pixel_code:
  "gradient_pixel height (t0, t1, t2, t3) (b0, b1, b2, b3) y =
     (code_lerp height t0 b0 y, code_lerp height t1 b1 y,
      code_lerp height t2 b2 y, code_lerp height t3 b3 y)"
  by (simp add: gradient_pixel_def)

section \<open>The renderer succeeds\<close>

lemma float_of_int_small:
  assumes "\<bar>k\<bar> < 2 ^ 53"
  shows "float_of_int k = Inr (float_val k)"
proof (rule float_of_int_ok)
  have "\<bar>rnd (real_of_int k)\<bar> = real_of_int \<bar>k\<bar>" by (simp add: rnd_of_int[OF assms])
  also have "\<dots> < real_of_int (2 ^ 53)" using assms by (simp only: of_int_less_iff)
  also have "\<dots> < p2 1024" using p2_nat[of 1024] by simp
  finally show "\<bar>rnd (real_of_int k)\<bar> < p2 1024" .
qed

lemma truediv_unit:
  assumes "0 \<le> y" and "y \<le> d" and d: "0 < d"
  shows "truediv y d = Inr (round_ratio y d)"
proof (rule truediv_ok[OF d])
  let ?q = "real_of_int y / real_of_int d"
  have "0 \<le> ?q" "?q \<le> 1" using assms by simp_all
  from rnd_unit[OF this] have "\<bar>rnd ?q\<bar> \<le> 1" by simp
  also have "(1::real) < p2 1024" using p2_nat[of 1024] by simp
  finally show "\<bar>rnd ?q\<bar> < p2 1024" .
qed

lemma lerp_code:
  assumes t: "byte t" and b: "byte b" and y: "0 \<le> y" "y \<le> max 1 (height - 1)"
  shows "lerp t b (round_ratio y (max 1 (height - 1))) = Inr (code_lerp height t b y)"
proof -
  let ?D = "max 1 (height - 1)"
  let ?q = "real_of_int y / real_of_int ?D"
  let ?arg = "fadd (float_val t) (fmul (float_val (b - t)) (round_ratio y ?D))"
  have D: "0 < ?D" by simp
  have q0: "0 \<le> ?q" using y(1) D by simp
  have q1: "?q \<le> 1" using y(2) D by simp
  have ct: "float_of_int t = Inr (float_val t)"
    using t by (intro float_of_int_small) (simp add: byte_def)
  have cd: "float_of_int (b - t) = Inr (float_val (b - t))"
    using byte_diff[OF t b] by (intro float_of_int_small) simp
  have v: "valof ?arg = rnd (real_of_int t + rnd (real_of_int (b - t) * rnd ?q))"
    by (simp only: valof_fadd valof_fmul valof_float_val round_ratio_rnd[OF D]
          rnd_byte[OF t] rnd_byte_diff[OF t b])
  have "0 \<le> real_of_int (min t b)" "real_of_int (max t b) \<le> 255"
    using t b by (simp_all add: byte_def)
  with lerp_value(1,2)[OF t b q0 q1] have "\<bar>valof ?arg\<bar> \<le> 255" unfolding v by linarith
  also have "(255::real) < p2 1024" using p2_nat[of 1024] by simp
  finally have "int_of_float ?arg = Inr (trunc ?arg)" by (rule int_of_float_ok)
  then show ?thesis by (simp add: lerp_def cd ct code_lerp_def)
qed

lemma gradient_rows_step:
  assumes sz: "size_of col = (1, h)" and y: "0 \<le> y" "y < h"
    and t: "byte t0" "byte t1" "byte t2" "byte t3"
    and b: "byte b0" "byte b1" "byte b2" "byte b3"
  shows "gradient_rows (y # ys) h (t0, t1, t2, t3) (b0, b1, b2, b3) col =
           gradient_rows ys h (t0, t1, t2, t3) (b0, b1, b2, b3)
             (PutPixel col 0 y (gradient_pixel h (t0, t1, t2, t3) (b0, b1, b2, b3) y))"
proof -
  let ?D = "max 1 (h - 1)"
  have yD: "y \<le> ?D" using y by simp
  have q: "truediv y ?D = Inr (round_ratio y ?D)"
    by (rule truediv_unit[OF y(1) yD]) simp
  note cl = code_lerp_byte[OF _ _ y(1) yD]
  have put: "putpixel col (0, y) (code_lerp h t0 b0 y, code_lerp h t1 b1 y,
                                  code_lerp h t2 b2 y, code_lerp h t3 b3 y)
             = Inr (PutPixel col 0 y (code_lerp h t0 b0 y, code_lerp h t1 b1 y,
                                      code_lerp h t2 b2 y, code_lerp h t3 b3 y))"
    using sz y by (simp add: putpixel_def cl[OF t(1) b(1)] cl[OF t(2) b(2)]
                     cl[OF t(3) b(3)] cl[OF t(4) b(4)])
  note lc = lerp_code[OF _ _ y(1) yD]
  show ?thesis
    by (simp add: q lc[OF t(1) b(1)] lc[OF t(2) b(2)] lc[OF t(3) b(3)] lc[OF t(4) b(4)]
          put gradient_pixel_code)
qed

lemma gradient_rows_ok:
  assumes "size_of col = (1, h)" and "\<forall>y\<in>set ys. 0 \<le> y \<and> y < h"
    and t: "byte t0" "byte t1" "byte t2" "byte t3"
    and b: "byte b0" "byte b1" "byte b2" "byte b3"
  defines "tc \<equiv> (t0, t1, t2, t3)" and "bc \<equiv> (b0, b1, b2, b3)"
  shows "\<exists>col'. gradient_rows ys h tc bc col = Inr col' \<and> size_of col' = (1, h)
           \<and> mode_of col' = mode_of col
           \<and> (\<forall>y. getpixel col' (0, y) =
                 (if y \<in> set ys then Some (gradient_pixel h tc bc y) else getpixel col (0, y)))"
  using assms(1,2)
proof (induction ys arbitrary: col)
  case Nil
  then show ?case by simp
next
  case (Cons y ys)
  let ?col1 = "PutPixel col 0 y (gradient_pixel h tc bc y)"
  from Cons.prems have y: "0 \<le> y" "y < h" by simp_all
  have step: "gradient_rows (y # ys) h tc bc col = gradient_rows ys h tc bc ?col1"
    unfolding tc_def bc_def by (rule gradient_rows_step[OF Cons.prems(1) y t b])
  have "size_of ?col1 = (1, h)" using Cons.prems(1) by simp
  moreover have "\<forall>y\<in>set ys. 0 \<le> y \<and> y < h" using Cons.prems(2) by simp
  ultimately obtain col' where
    run: "gradient_rows ys h tc bc ?col1 = Inr col'" and sz: "size_of col' = (1, h)"
    and md: "mode_of col' = mode_of ?col1"
    and px: "\<forall>y'. getpixel col' (0, y') =
               (if y' \<in> set ys then Some (gradient_pixel h tc bc y') else getpixel ?col1 (0, y'))"
    using Cons.IH[of ?col1] by blast
  have "\<forall>y'. getpixel col' (0, y') =
          (if y' \<in> set (y # ys) then Some (gradient_pixel h tc bc y') else getpixel col (0, y'))"
    using px by simp
  with step run sz md show ?case by simp
qed

lemma make_vertical_gradient_ok:
  assumes "0 \<le> h"
    and t: "byte t0" "byte t1" "byte t2" "byte t3"
    and b: "byte b0" "byte b1" "byte b2" "byte b3"
  defines "tc \<equiv> (t0, t1, t2, t3)" and "bc \<equiv> (b0, b1, b2, b3)"
  shows "\<exists>col. make_vertical_gradient h tc bc = Inr col \<and> size_of col = (1, h)
           \<and> mode_of col = RGBA
           \<and> (\<forall>y. 0 \<le> y \<and> y < h \<longrightarrow> getpixel col (0, y) = Some (gradient_pixel h tc bc y))"
proof -
  let ?new = "New RGBA 1 h (Color (0, 0, 0, 0))"
  have new: "image_new RGBA (1, h) (Color (0, 0, 0, 0)) = Inr ?new"
    using assms(1) by (simp add: image_new_def)
  have "size_of ?new = (1, h)" by simp
  moreover have "\<forall>y\<in>set [0 .. h - 1]. 0 \<le> y \<and> y < h" by simp
  ultimately obtain col where
    run: "gradient_rows [0 .. h - 1] h tc bc ?new = Inr col" and sz: "size_of col = (1, h)"
    and md: "mode_of col = mode_of ?new"
    and px: "\<forall>y. getpixel col (0, y) =
               (if y \<in> set [0 .. h - 1] then Some (gradient_pixel h tc bc y) else getpixel ?new (0, y))"
    using gradient_rows_ok[of ?new h "[0 .. h - 1]", OF _ _ t b] unfolding tc_def bc_def by blast
  have "make_vertical_gradient h tc bc = Inr col"
    by (simp add: make_vertical_gradient_def new run)
  moreover have "\<forall>y. 0 \<le> y \<and> y < h \<longrightarrow> getpixel col (0, y) = Some (gradient_pixel h tc bc y)"
    using px by simp
  ultimately show ?thesis using sz md by simp
qed

lemma resize_ok:
  assumes "1 \<le> w" and "1 \<le> h"
  shows "\<exists>out. resize im (w, h) f = Inr out \<and> size_of out = (w, h) \<and> mode_of out = mode_of im"
  using assms by (simp add: resize_def)

text \<open>
  The conversions of the renderer succeed when the working size is below
  \<open>2^1024 - 2^970\<close>, the first integer whose nearest float would be \<open>2^1024\<close>.
\<close>

lemma conversions_ok:
  assumes b: "1 \<le> b" and s: "1 \<le> s" and r: "b * s < 2 ^ 1024 - 2 ^ 970"
  shows "truediv (working_size b s) 2 = Inr (round_ratio (working_size b s) 2)"
    and "float_of_int (working_size b s) = Inr (float_val (working_size b s))"
    and "float_of_int s = Inr (float_val s)"
proof -
  let ?ss = "working_size b s"
  from b s have "1 * s \<le> b * s" by (intro mult_right_mono) simp_all
  then have s_le: "s \<le> ?ss" by (simp add: working_size_def)
  with s have ss0: "0 \<le> ?ss" by simp
  from r ss0 have "\<bar>?ss\<bar> < 2 ^ 1024 - 2 ^ 970" by (simp add: working_size_def)
  then have top: "\<bar>rnd (real_of_int ?ss)\<bar> < p2 1024" by (rule int_in_range)
  then show "float_of_int ?ss = Inr (float_val ?ss)" by (rule float_of_int_ok)
  have "\<bar>real_of_int s\<bar> \<le> \<bar>real_of_int ?ss\<bar>" using s s_le by simp
  then have "\<bar>rnd (real_of_int s)\<bar> \<le> \<bar>rnd (real_of_int ?ss)\<bar>" by (rule rnd_abs_mono)
  with top have "\<bar>rnd (real_of_int s)\<bar> < p2 1024" by linarith
  then show "float_of_int s = Inr (float_val s)" by (rule float_of_int_ok)
  have "\<bar>real_of_int ?ss / real_of_int 2\<bar> \<le> \<bar>real_of_int ?ss\<bar>" using ss0 by simp
  then have "\<bar>rnd (real_of_int ?ss / real_of_int 2)\<bar> \<le> \<bar>rnd (real_of_int ?ss)\<bar>"
    by (rule rnd_abs_mono)
  with top have "\<bar>rnd (real_of_int ?ss / real_of_int 2)\<bar> < p2 1024" by linarith
  then show "truediv ?ss 2 = Inr (round_ratio ?ss 2)" by (intro truediv_ok) simp_all
qed

lemma render_icon_ok:
  assumes b: "1 \<le> b" and s: "1 \<le> s" and r: "b * s < 2 ^ 1024 - 2 ^ 970"
  shows "\<exists>img. render_icon b s = Inr img \<and> size_of img = (b, b) \<and> mode_of img = RGBA"
proof -
  let ?ss = "working_size b s"
  let ?cx = "round_ratio ?ss 2"
  let ?ss_f = "float_val ?ss"
  note conv = conversions_ok[OF b s r]
  from b s have "1 * 1 \<le> b * s" by (intro mult_mono) simp_all
  then have ss1: "1 \<le> ?ss" by (simp add: working_size_def)
  then have ss0: "0 \<le> ?ss" by simp
  have new: "image_new m (?ss, ?ss) c = Inr (New m ?ss ?ss c)" for m c
    using ss0 by (simp add: image_new_def)
  let ?mask2 = "Ellipse (Ellipse (New L ?ss ?ss (Gray 0)) (disc_box ?cx ?cx (r_outer ?ss)) (Gray 255))
                  (disc_box ?cx ?cx (r_inner ?ss)) (Gray 0)"
  let ?mask = "GaussianBlur (fmul lit_1_2 (float_val s)) ?mask2"
  have bytes: "byte 245" "byte 150" "byte 45" "byte 255" "byte 205" "byte 120" "byte 35" "byte 255"
    by (simp_all add: byte_def)
  obtain col where col: "make_vertical_gradient ?ss (245, 150, 45, 255) (205, 120, 35, 255) = Inr col"
    and col_sz: "size_of col = (1, ?ss)" and col_md: "mode_of col = RGBA"
    using make_vertical_gradient_ok[OF ss0 bytes] by blast
  obtain grad where grad: "resize col (?ss, ?ss) BILINEAR = Inr grad"
    and grad_sz: "size_of grad = (?ss, ?ss)"
    using resize_ok[OF ss1 ss1] by blast
  let ?clear = "New RGBA ?ss ?ss (Color (0, 0, 0, 0))"
  let ?ring = "Composite grad ?clear ?mask"
  have ring: "composite grad ?clear ?mask = Inr ?ring"
    using grad_sz by (simp add: composite_def)
  let ?img1 = "AlphaComposite (New RGBA ?ss ?ss (Color BG)) ?ring"
  have img1: "alpha_composite (New RGBA ?ss ?ss (Color BG)) ?ring = Inr ?img1"
    by (simp add: alpha_composite_def)
  let ?img2 = "Ellipse ?img1 (disc_box ?cx ?cx (inner_r ?ss)) (Color INNER)"
  let ?hd_r = "trunc (fmul lit_0_05 ?ss_f)"
  let ?hx = "fadd ?cx (float_val (trunc (fmul lit_0_23 ?ss_f)))"
  let ?hy = "fsub ?cx (float_val (trunc (fmul lit_0_21 ?ss_f)))"
  let ?dot = "GaussianBlur (fmul lit_0_012 ?ss_f)
                (Ellipse ?clear (disc_box ?hx ?hy ?hd_r) (Color (255, 230, 160, 180)))"
  let ?img3 = "AlphaComposite ?img2 ?dot"
  have img3: "alpha_composite ?img2 ?dot = Inr ?img3"
    by (simp add: alpha_composite_def)
  have hd: "0 \<le> ?hd_r" by (rule trunc_scaled_nonneg[OF lit_nonneg(4) ss0])
  obtain out where out: "resize ?img3 (b, b) LANCZOS = Inr out"
    and out_sz: "size_of out = (b, b)" and out_md: "mode_of out = mode_of ?img3"
    using resize_ok[OF b b] by blast
  have "render_icon b s = Inr out"
    unfolding render_icon_def Let_def
    by (simp only: conv new and_then_Inr disc_box_ok[OF r_outer_nonneg[OF ss0]]
          disc_box_ok[OF r_inner_nonneg[OF ss0]] disc_box_ok[OF inner_r_nonneg[OF ss0]]
          disc_box_ok[OF hd] col grad ring img1 img3 out)
  moreover have "mode_of out = RGBA" using out_md by simp
  ultimately show ?thesis using out_sz by blast
qed




section \<open>The radii convert to floats\<close>

text \<open>
  The radii are fractions of the working size, so the renderer converts them to floats
  without an exception once the working size itself has been converted.
\<close>

lemma float_of_int_Inr:
  assumes "float_of_int n = Inr x"
  shows "x = float_val n" and "\<bar>rnd (real_of_int n)\<bar> < p2 1024"
proof -
  from assms have no: "\<not> overflows (float_val n)" and x: "x = float_val n"
    by (simp_all add: float_of_int_def split: if_splits)
  from x show "x = float_val n" .
  from no show "\<bar>rnd (real_of_int n)\<bar> < p2 1024"
    by (simp add: overflows_valof valof_float_val)
qed

lemma rnd_upper:
  assumes "0 \<le> x"
  shows "rnd x \<le> x * (1 + p2 (- 53))"
proof -
  have "\<bar>rnd x - x\<bar> \<le> \<bar>x\<bar> * p2 (- 53)" by (rule rnd_error)
  moreover have "\<bar>x\<bar> = x" using assms by simp
  ultimately have "rnd x - x \<le> x * p2 (- 53)" by linarith
  moreover have "x * (1 + p2 (- 53)) = x + x * p2 (- 53)" by (rule distrib_left[of x 1, simplified])
  ultimately show ?thesis by linarith
qed

lemma fraction_le:
  assumes c0: "0 \<le> valof c" and c1: "valof c \<le> 1 / 2" and ss: "0 \<le> ss"
  shows "trunc (fmul c (float_val ss)) \<le> ss"
proof -
  let ?eps = "p2 (- 53)"
  let ?x = "real_of_int ss"
  let ?w = "valof c * rnd ?x"
  have eps: "?eps = 1 / 2 ^ 53" using p2_neg[of "- 53"] by simp
  have x0: "0 \<le> ?x" using ss by simp
  have r0: "0 \<le> rnd ?x" using x0 by (rule rnd_nonneg)
  have rx: "rnd ?x \<le> ?x * (1 + ?eps)" using x0 by (rule rnd_upper)
  have w0: "0 \<le> ?w" using c0 r0 by (rule mult_nonneg_nonneg)
  have "?w \<le> (1 / 2) * rnd ?x" using c1 r0 by (rule mult_right_mono)
  also have "\<dots> \<le> (1 / 2) * (?x * (1 + ?eps))" using rx by simp
  finally have w: "?w \<le> ?x * ((1 + ?eps) / 2)" by simp
  have "rnd ?w \<le> ?w * (1 + ?eps)" using w0 by (rule rnd_upper)
  also have "\<dots> \<le> (?x * ((1 + ?eps) / 2)) * (1 + ?eps)"
    using w by (rule mult_right_mono) simp
  also have "\<dots> = ?x * ((1 + ?eps) * (1 + ?eps) / 2)" by simp
  also have "\<dots> \<le> ?x * 1"
    using x0 by (intro mult_left_mono) (simp_all add: eps)
  finally have v: "rnd ?w \<le> ?x" by simp
  have v0: "0 \<le> valof (fmul c (float_val ss))" using c0 ss by (rule scaled_nonneg)
  then have "trunc (fmul c (float_val ss)) = \<lfloor>valof (fmul c (float_val ss))\<rfloor>"
    by (rule trunc_nonneg)
  also have "valof (fmul c (float_val ss)) = rnd ?w" by (simp only: valof_fmul valof_float_val)
  also have "\<lfloor>rnd ?w\<rfloor> \<le> \<lfloor>?x\<rfloor>" using v by (rule floor_mono)
  finally show ?thesis by simp
qed

lemma below_converts:
  assumes ok: "float_of_int ss = Inr x" and r: "0 \<le> r" "r \<le> ss"
  shows "float_of_int r = Inr (float_val r)"
proof (rule float_of_int_ok)
  from r have "\<bar>real_of_int r\<bar> \<le> \<bar>real_of_int ss\<bar>" by simp
  then have "\<bar>rnd (real_of_int r)\<bar> \<le> \<bar>rnd (real_of_int ss)\<bar>" by (rule rnd_abs_mono)
  with float_of_int_Inr(2)[OF ok] show "\<bar>rnd (real_of_int r)\<bar> < p2 1024" by linarith
qed

lemma lit_half:
  "valof lit_0_41 \<le> 1 / 2" "valof lit_0_295 \<le> 1 / 2" "valof lit_0_01 \<le> 1 / 2"
  "valof lit_0_05 \<le> 1 / 2" "valof lit_0_23 \<le> 1 / 2" "valof lit_0_21 \<le> 1 / 2"
  by (simp_all only: lit_values) simp_all

lemma radii_convert:
  assumes ss: "0 \<le> ss" and ok: "float_of_int ss = Inr x"
  shows "float_of_int (r_outer ss) = Inr (float_val (r_outer ss))"
    and "float_of_int (r_inner ss) = Inr (float_val (r_inner ss))"
    and "float_of_int (inner_r ss) = Inr (float_val (inner_r ss))"
    and "float_of_int (trunc (fmul lit_0_05 x)) = Inr (float_val (trunc (fmul lit_0_05 x)))"
    and "float_of_int (trunc (fmul lit_0_23 x)) = Inr (float_val (trunc (fmul lit_0_23 x)))"
    and "float_of_int (trunc (fmul lit_0_21 x)) = Inr (float_val (trunc (fmul lit_0_21 x)))"
proof -
  note x = float_of_int_Inr(1)[OF ok]
  note conv = below_converts[OF ok]
  show "float_of_int (r_outer ss) = Inr (float_val (r_outer ss))"
    unfolding r_outer_def
    by (rule conv[OF trunc_scaled_nonneg[OF lit_nonneg(1) ss] fraction_le[OF lit_nonneg(1) lit_half(1) ss]])
  have ri: "r_inner ss \<le> ss"
    unfolding r_inner_def by (rule fraction_le[OF lit_nonneg(2) lit_half(2) ss])
  show "float_of_int (r_inner ss) = Inr (float_val (r_inner ss))"
    by (rule conv[OF r_inner_nonneg[OF ss] ri])
  from inner_r_le[OF ss] ri have "inner_r ss \<le> ss" by simp
  then show "float_of_int (inner_r ss) = Inr (float_val (inner_r ss))"
    by (rule conv[OF inner_r_nonneg[OF ss]])
  show "float_of_int (trunc (fmul lit_0_05 x)) = Inr (float_val (trunc (fmul lit_0_05 x)))"
    unfolding x
    by (rule conv[OF trunc_scaled_nonneg[OF lit_nonneg(4) ss] fraction_le[OF lit_nonneg(4) lit_half(4) ss]])
  show "float_of_int (trunc (fmul lit_0_23 x)) = Inr (float_val (trunc (fmul lit_0_23 x)))"
    unfolding x
    by (rule conv[OF trunc_scaled_nonneg[OF lit_nonneg(5) ss] fraction_le[OF lit_nonneg(5) lit_half(5) ss]])
  show "float_of_int (trunc (fmul lit_0_21 x)) = Inr (float_val (trunc (fmul lit_0_21 x)))"
    unfolding x
    by (rule conv[OF trunc_scaled_nonneg[OF lit_nonneg(6) ss] fraction_le[OF lit_nonneg(6) lit_half(6) ss]])
qed


section \<open>Directories and files\<close>

lemma resize_lanczos: "1 \<le> px \<Longrightarrow> resize base (px, px) LANCZOS = Inr (resized base px)"
  by (simp add: resize_def resized_def)

lemma size_of_resized: "size_of (resized base px) = (px, px)"
  by (simp add: resized_def)

lemma mode_of_resized: "mode_of (resized base px) = mode_of base"
  by (simp add: resized_def)

lemma mkdirs_unchanged:
  "mkdirs ps fs = (r, fs') \<Longrightarrow> q \<notin> set ps \<or> fs q \<noteq> None \<Longrightarrow> fs' q = fs q"
proof (induction ps arbitrary: fs)
  case Nil
  then show ?case by simp
next
  case (Cons p ps)
  show ?case
  proof (cases "node_at fs p")
    case None
    with Cons.prems have step: "mkdirs ps (fs(p \<mapsto> Dir)) = (r, fs')" by simp
    from None Cons.prems(2) have "q \<noteq> p"
      by (auto simp: node_at_def split: if_splits)
    with Cons.IH[OF step] Cons.prems(2) show ?thesis by auto
  next
    case (Some n)
    with Cons.prems Cons.IH[of fs] show ?thesis
      by (cases n) (auto split: if_splits)
  qed
qed

lemma mkdirs_changed:
  "mkdirs ps fs = (r, fs') \<Longrightarrow> fs' q \<noteq> fs q \<Longrightarrow> fs' q = Some Dir"
proof (induction ps arbitrary: fs)
  case Nil
  then show ?case by simp
next
  case (Cons p ps)
  show ?case
  proof (cases "node_at fs p")
    case None
    with Cons.prems have step: "mkdirs ps (fs(p \<mapsto> Dir)) = (r, fs')" by simp
    show ?thesis
    proof (cases "q = p")
      case True
      with mkdirs_unchanged[OF step, of q] show ?thesis by simp
    next
      case False
      with Cons.IH[OF step] Cons.prems(2) show ?thesis by auto
    qed
  next
    case (Some n)
    with Cons.prems Cons.IH[of fs] show ?thesis
      by (cases n) (auto split: if_splits)
  qed
qed

lemma mkdirs_ok:
  "\<forall>p\<in>set ps. \<forall>c. node_at fs p \<noteq> Some (File c) \<Longrightarrow>
   \<exists>fs'. mkdirs ps fs = (None, fs') \<and> (\<forall>p\<in>set ps. node_at fs' p = Some Dir)"
proof (induction ps arbitrary: fs)
  case Nil
  then show ?case by simp
next
  case (Cons p ps)
  show ?case
  proof (cases "node_at fs p")
    case None
    from Cons.prems have "\<forall>p'\<in>set ps. \<forall>c. node_at (fs(p \<mapsto> Dir)) p' \<noteq> Some (File c)"
      by (auto simp: node_at_def)
    from Cons.IH[OF this] obtain fs' where
      step: "mkdirs ps (fs(p \<mapsto> Dir)) = (None, fs')" and dirs: "\<forall>p\<in>set ps. node_at fs' p = Some Dir"
      by blast
    from mkdirs_unchanged[OF step, of p] have "node_at fs' p = Some Dir"
      by (simp add: node_at_def)
    with None step dirs show ?thesis by simp
  next
    case (Some n)
    from Cons.prems have "\<forall>p'\<in>set ps. \<forall>c. node_at fs p' \<noteq> Some (File c)" by auto
    from Cons.IH[OF this] obtain fs' where
      step: "mkdirs ps fs = (None, fs')" and dirs: "\<forall>p\<in>set ps. node_at fs' p = Some Dir"
      by blast
    from Some Cons.prems have n: "n = Dir"
      by (cases n) auto
    with Some have "node_at fs p = Some Dir" by simp
    with mkdirs_unchanged[OF step, of p] have "node_at fs' p = Some Dir"
      by (auto simp: node_at_def split: if_splits)
    with Some n step dirs show ?thesis by simp
  qed
qed

lemma mkdirs_success_dirs:
  "mkdirs ps fs = (None, fs') \<Longrightarrow> p \<in> set ps \<Longrightarrow> node_at fs' p = Some Dir"
proof (induction ps arbitrary: fs)
  case Nil
  then show ?case by simp
next
  case (Cons a ps)
  show ?case
  proof (cases "node_at fs a")
    case None
    with Cons.prems have step: "mkdirs ps (fs(a \<mapsto> Dir)) = (None, fs')" by simp
    show ?thesis
    proof (cases "p = a")
      case True
      with mkdirs_unchanged[OF step, of a] show ?thesis by (simp add: node_at_def)
    next
      case False
      with Cons.prems Cons.IH[OF step] show ?thesis by simp
    qed
  next
    case (Some n)
    show ?thesis
    proof (cases n)
      case Dir
      with Some Cons.prems have step: "mkdirs ps fs = (None, fs')" by simp
      show ?thesis
      proof (cases "p = a")
        case True
        with mkdirs_unchanged[OF step, of a] Some Dir show ?thesis
          by (auto simp: node_at_def split: if_splits)
      next
        case False
        with Cons.prems Cons.IH[OF step] show ?thesis by simp
      qed
    next
      case (File c)
      with Some Cons.prems show ?thesis by simp
    qed
  qed
qed

lemma orphan_free:
  assumes wf: "wf_fs fs" and none: "node_at fs d = None"
  shows "fs (d @ zs) = None"
proof (induction zs rule: rev_induct)
  case Nil
  from none show ?case by (simp add: node_at_def split: if_splits)
next
  case (snoc z zs)
  show ?case
  proof (rule ccontr)
    assume "fs (d @ zs @ [z]) \<noteq> None"
    with wf have "node_at fs (parent (d @ zs @ [z])) = Some Dir"
      by (simp add: wf_fs_def)
    then have "node_at fs (d @ zs) = Some Dir"
      by (simp add: parent_def butlast_append)
    moreover from none have "d \<noteq> []" by (auto simp: node_at_def split: if_splits)
    ultimately show False using snoc by (simp add: node_at_def)
  qed
qed

lemma save_ok:
  "fs d = Some Dir \<Longrightarrow> d \<noteq> [] \<Longrightarrow> fs (d @ [n]) \<noteq> Some Dir \<Longrightarrow>
   save img (d @ [n]) fs = (None, fs(d @ [n] \<mapsto> File (PNG img)))"
  by (auto simp: save_def node_at_def parent_def split: option.splits node.splits)

lemma write_entries_ok:
  assumes "fs d = Some Dir" and "d \<noteq> []"
    and "\<forall>(n, px)\<in>set xs. 1 \<le> px \<and> fs (d @ [n]) \<noteq> Some Dir"
    and "distinct (map fst xs)"
  shows "\<exists>fs'. write_entries base d xs fs = (None, fs')
           \<and> (\<forall>q. q \<notin> (\<lambda>n. d @ [n]) ` fst ` set xs \<longrightarrow> fs' q = fs q)
           \<and> (\<forall>(n, px)\<in>set xs. fs' (d @ [n]) = Some (File (PNG (resized base px))))"
  using assms
proof (induction xs arbitrary: fs)
  case Nil
  then show ?case by simp
next
  case (Cons x xs)
  obtain n px where x: "x = (n, px)" by (cases x)
  let ?fs1 = "fs(d @ [n] \<mapsto> File (PNG (resized base px)))"
  from Cons.prems x have px: "1 \<le> px" and free: "fs (d @ [n]) \<noteq> Some Dir" by auto
  have sv: "save (resized base px) (d @ [n]) fs = (None, ?fs1)"
    using save_ok[OF Cons.prems(1,2) free] .
  have "?fs1 d = Some Dir" using Cons.prems(1) by simp
  moreover have "\<forall>(n', px')\<in>set xs. 1 \<le> px' \<and> fs (d @ [n']) \<noteq> Some Dir"
    using Cons.prems(3) by auto
  then have "\<forall>(n', px')\<in>set xs. 1 \<le> px' \<and> ?fs1 (d @ [n']) \<noteq> Some Dir"
    by (auto split: if_splits)
  moreover have "distinct (map fst xs)" using Cons.prems(4) by simp
  ultimately obtain fs' where
    run: "write_entries base d xs ?fs1 = (None, fs')"
    and out: "\<forall>q. q \<notin> (\<lambda>n. d @ [n]) ` fst ` set xs \<longrightarrow> fs' q = ?fs1 q"
    and ins: "\<forall>(n', px')\<in>set xs. fs' (d @ [n']) = Some (File (PNG (resized base px')))"
    using Cons.IH[of ?fs1] Cons.prems(2) by blast
  have whole: "write_entries base d (x # xs) fs = (None, fs')"
    using x px sv run by (simp add: resize_lanczos seq_def)
  from Cons.prems(4) x have "n \<notin> fst ` set xs" by auto
  then have "d @ [n] \<notin> (\<lambda>n. d @ [n]) ` fst ` set xs" by auto
  with out have here: "fs' (d @ [n]) = Some (File (PNG (resized base px)))" by simp
  have "\<forall>q. q \<notin> (\<lambda>n. d @ [n]) ` fst ` set (x # xs) \<longrightarrow> fs' q = fs q"
    using out x by auto
  moreover have "\<forall>(n', px')\<in>set (x # xs). fs' (d @ [n']) = Some (File (PNG (resized base px')))"
    using ins here x by auto
  ultimately show ?case using whole by blast
qed

lemma sizes_names:
  "map fst sizes =
     [''icon_16x16.png'', ''icon_16x16@2x.png'', ''icon_32x32.png'', ''icon_32x32@2x.png'',
      ''icon_128x128.png'', ''icon_128x128@2x.png'', ''icon_256x256.png'', ''icon_256x256@2x.png'',
      ''icon_512x512.png'', ''icon_512x512@2x.png'']"
  by (simp add: sizes_def)

lemma sizes_pixels: "map snd sizes = [16, 32, 32, 64, 128, 256, 256, 512, 512, 1024]"
  by (simp add: sizes_def)

lemma sizes_distinct: "distinct (map fst sizes)"
  unfolding sizes_names by simp

lemma sizes_positive: "(n, px) \<in> set sizes \<Longrightarrow> 1 \<le> px"
  by (auto simp: sizes_def)

lemma clear_pathD:
  assumes "clear_path fs d" and "prefix p d"
  shows "node_at fs p \<noteq> Some (File c)"
proof
  assume f: "node_at fs p = Some (File c)"
  from assms(2) have "p \<in> set (prefixes d)" by simp
  with assms(1) have "\<not> is_file (node_at fs p)" by (auto simp: clear_path_def)
  with f show False by (simp add: is_file_def)
qed

text \<open>What the exporter leaves, on files where no regular file is in the way.\<close>

lemma write_iconset_result:
  assumes wf: "wf_fs fs" and d: "d \<noteq> []"
    and clear_d: "clear_path fs d"
  shows "\<exists>fs'. write_iconset base d fs = (None, fs')
           \<and> fs' d = Some Dir
           \<and> (\<forall>(n, px)\<in>set sizes. fs' (d @ [n]) = Some (File (PNG (resized base px))))
           \<and> (\<forall>q. strict_prefix d q \<longrightarrow> q \<notin> (\<lambda>n. d @ [n]) ` fst ` set sizes \<longrightarrow> fs' q = None)
           \<and> (\<forall>q. \<not> prefix d q \<longrightarrow> fs' q = fs q \<or> (fs q = None \<and> fs' q = Some Dir))"
proof -
  from clear_d have clear: "\<forall>p. prefix p d \<longrightarrow> (\<forall>c. node_at fs p \<noteq> Some (File c))"
    by (blast dest: clear_pathD)
  define fs1 where "fs1 = (if path_exists fs d then (\<lambda>q. if prefix d q then None else fs q) else fs)"
  have first: "(if path_exists fs d then rmtree d fs else (None, fs)) = (None, fs1)"
    using d clear by (auto simp: fs1_def path_exists_def rmtree_def node_at_def split: node.splits)
  have below1: "fs1 q = None" if "prefix d q" for q
  proof (cases "path_exists fs d")
    case True
    with that show ?thesis by (simp add: fs1_def)
  next
    case False
    then have "node_at fs d = None" by (simp add: path_exists_def)
    from orphan_free[OF wf this] that show ?thesis
      using False by (auto simp: fs1_def prefix_def)
  qed
  have out1: "fs1 q = fs q" if "\<not> prefix d q" for q
    using that by (simp add: fs1_def)
  have "\<forall>p\<in>set (prefixes d). \<forall>c. node_at fs1 p \<noteq> Some (File c)"
    using clear by (auto simp: fs1_def node_at_def)
  from mkdirs_ok[OF this] obtain fs2 where
    mk: "mkdirs (prefixes d) fs1 = (None, fs2)" and dirs: "\<forall>p\<in>set (prefixes d). node_at fs2 p = Some Dir"
    by blast
  from dirs d have d2: "fs2 d = Some Dir" by (auto simp: node_at_def split: if_splits)
  have below2: "fs2 q = None" if "strict_prefix d q" for q
  proof -
    from that have "q \<notin> set (prefixes d)" by (auto simp: strict_prefix_def)
    with mkdirs_unchanged[OF mk, of q] below1[of q] that show ?thesis
      by (auto simp: strict_prefix_def)
  qed
  have "\<forall>(n, px)\<in>set sizes. 1 \<le> px \<and> fs2 (d @ [n]) \<noteq> Some Dir"
    using below2 sizes_positive by (auto simp: strict_prefix_def)
  from write_entries_ok[OF d2 d this sizes_distinct, of base] obtain fs' where
    run: "write_entries base d sizes fs2 = (None, fs')"
    and out: "\<forall>q. q \<notin> (\<lambda>n. d @ [n]) ` fst ` set sizes \<longrightarrow> fs' q = fs2 q"
    and ins: "\<forall>(n, px)\<in>set sizes. fs' (d @ [n]) = Some (File (PNG (resized base px)))"
    by blast
  have "write_iconset base d fs = (None, fs')"
    using first mk run by (simp add: write_iconset_def seq_def mkdir_def)
  moreover have "fs' d = Some Dir" using out d2 by auto
  moreover have "\<forall>q. strict_prefix d q \<longrightarrow> q \<notin> (\<lambda>n. d @ [n]) ` fst ` set sizes \<longrightarrow> fs' q = None"
    using out below2 by simp
  moreover have "\<forall>q. \<not> prefix d q \<longrightarrow> fs' q = fs q \<or> (fs q = None \<and> fs' q = Some Dir)"
  proof (intro allI impI)
    fix q assume nq: "\<not> prefix d q"
    then have "q \<notin> (\<lambda>n. d @ [n]) ` fst ` set sizes" by auto
    with out have a: "fs' q = fs2 q" by simp
    from out1[OF nq] have b: "fs1 q = fs q" .
    show "fs' q = fs q \<or> (fs q = None \<and> fs' q = Some Dir)"
    proof (cases "fs2 q = fs1 q")
      case True
      with a b show ?thesis by simp
    next
      case False
      from mkdirs_changed[OF mk False] have "fs2 q = Some Dir" .
      moreover from mkdirs_unchanged[OF mk, of q] False have "fs1 q = None" by blast
      ultimately show ?thesis using a b by simp
    qed
  qed
  ultimately show ?thesis using ins by blast
qed

lemma wf_ancestors:
  assumes wf: "wf_fs fs"
  shows "fs (p @ zs) \<noteq> None \<Longrightarrow> zs \<noteq> [] \<Longrightarrow> node_at fs p = Some Dir"
proof (induction zs rule: rev_induct)
  case Nil
  then show ?case by simp
next
  case (snoc z zs)
  from wf snoc.prems(1) have "node_at fs (parent (p @ zs @ [z])) = Some Dir"
    by (simp add: wf_fs_def)
  then have up: "node_at fs (p @ zs) = Some Dir"
    by (simp add: parent_def butlast_append)
  show ?case
  proof (cases "zs = []")
    case True
    with up show ?thesis by simp
  next
    case False
    with up have "fs (p @ zs) \<noteq> None" by (auto simp: node_at_def split: if_splits)
    from snoc.IH[OF this False] show ?thesis .
  qed
qed

lemma wf_clear_path:
  assumes wf: "wf_fs fs" and dir: "node_at fs d = Some Dir"
  shows "clear_path fs d"
  unfolding clear_path_def
proof
  fix p assume "p \<in> set (prefixes d)"
  then have pre: "prefix p d" by simp
  show "\<not> is_file (node_at fs p)"
  proof (cases "p = d")
    case True
    with dir show ?thesis by (simp add: is_file_def)
  next
    case False
    with pre obtain zs where zs: "d = p @ zs" "zs \<noteq> []" by (auto simp: prefix_def)
    with dir have "fs (p @ zs) \<noteq> None" by (auto simp: node_at_def split: if_splits)
    from wf_ancestors[OF wf this zs(2)] show ?thesis by (simp add: is_file_def)
  qed
qed

lemma write_entries_frame:
  "write_entries base d xs fs = (r, fs') \<Longrightarrow> q \<notin> (\<lambda>n. d @ [n]) ` fst ` set xs \<Longrightarrow> fs' q = fs q"
proof (induction xs arbitrary: fs)
  case Nil
  then show ?case by simp
next
  case (Cons x xs)
  obtain n px where x: "x = (n, px)" by (cases x)
  show ?case
  proof (cases "resize base (px, px) LANCZOS")
    case (Inl e)
    with Cons.prems x show ?thesis by simp
  next
    case (Inr im)
    obtain r1 fs1 where sv: "save im (d @ [n]) fs = (r1, fs1)" by (cases "save im (d @ [n]) fs")
    from Cons.prems(2) x have "q \<noteq> d @ [n]" by auto
    with sv have keep: "fs1 q = fs q"
      by (auto simp: save_def split: option.splits node.splits)
    show ?thesis
    proof (cases r1)
      case None
      with Cons.prems(1) x Inr sv have "write_entries base d xs fs1 = (r, fs')"
        by (simp add: seq_def)
      from Cons.IH[OF this] Cons.prems(2) keep show ?thesis by simp
    next
      case (Some e)
      with Cons.prems(1) x Inr sv keep show ?thesis by (simp add: seq_def)
    qed
  qed
qed

lemma save_success:
  "save img p fs = (None, fs') \<Longrightarrow> fs' = fs(p \<mapsto> File (PNG img))"
  by (auto simp: save_def split: option.splits node.splits)

lemma write_entries_success:
  assumes "write_entries base d xs fs = (None, fs')" and "distinct (map fst xs)"
    and "\<forall>(n, px)\<in>set xs. 1 \<le> px"
  shows "\<forall>(n, px)\<in>set xs. fs' (d @ [n]) = Some (File (PNG (resized base px)))"
  using assms
proof (induction xs arbitrary: fs)
  case Nil
  then show ?case by simp
next
  case (Cons x xs)
  obtain n px where x: "x = (n, px)" by (cases x)
  from Cons.prems(3) x have px: "1 \<le> px" by simp
  obtain r1 fs1 where sv: "save (resized base px) (d @ [n]) fs = (r1, fs1)"
    by (cases "save (resized base px) (d @ [n]) fs")
  from Cons.prems(1) x px sv have r1: "r1 = None"
    by (cases r1) (simp_all add: resize_lanczos seq_def)
  with Cons.prems(1) x px sv have rest: "write_entries base d xs fs1 = (None, fs')"
    by (simp add: resize_lanczos seq_def)
  from save_success sv r1 have fs1: "fs1 = fs(d @ [n] \<mapsto> File (PNG (resized base px)))" by blast
  from Cons.prems(2) x have fresh: "n \<notin> fst ` set xs" by auto
  have ih: "\<forall>(n', px')\<in>set xs. fs' (d @ [n']) = Some (File (PNG (resized base px')))"
    using Cons.IH[OF rest] Cons.prems(2,3) by simp
  have "fs' (d @ [n]) = Some (File (PNG (resized base px)))"
  proof -
    from fresh have "d @ [n] \<notin> (\<lambda>n. d @ [n]) ` fst ` set xs" by auto
    from write_entries_frame[OF rest this] fs1 show ?thesis by simp
  qed
  with ih x show ?case by simp
qed

section \<open>Statements about the renderer\<close>




text \<open>
  C10, as stated, fails: at \<open>base_size = 64\<close>, \<open>supersample = 1\<close> the inner disc has radius 18,
  the radius of the ring's inner edge, since \<^verbatim>\<open>int(0.01 * 64)\<close> is 0.
\<close>

theorem inner_disc_not_smaller_at_64:
  "(1::int) \<le> 64 \<and> (1::int) \<le> 1
   \<and> inner_r (working_size 64 1) = 18 \<and> r_inner (working_size 64 1) = 18
   \<and> \<not> inner_r (working_size 64 1) < r_inner (working_size 64 1)"
  by code_simp

text \<open>
  C10, amended: for every \<open>base_size \<ge> 1\<close> and \<open>supersample \<ge> 1\<close> the radius of the inner disc
  is at most the ring's inner radius, and it is strictly smaller exactly when the working
  canvas \<open>base_size * supersample\<close> is at least 100 pixels wide.
\<close>

theorem inner_disc_within_ring:
  assumes "1 \<le> b" and "1 \<le> s"
  shows "inner_r (working_size b s) \<le> r_inner (working_size b s)
         \<and> (inner_r (working_size b s) < r_inner (working_size b s) \<longleftrightarrow> 100 \<le> b * s)"
proof -
  from assms have "1 * 1 \<le> b * s" by (intro mult_mono) simp_all
  then have ss: "0 \<le> working_size b s" by (simp add: working_size_def)
  from inner_r_le[OF ss] inner_r_strict[OF ss] show ?thesis
    by (simp add: working_size_def)
qed

theorem inner_disc_within_ring_witness:
  "(1::int) \<le> 1024 \<and> (1::int) \<le> 4
   \<and> inner_r (working_size 1024 4) \<le> r_inner (working_size 1024 4)
   \<and> inner_r (working_size 1024 4) < r_inner (working_size 1024 4)"
  using inner_disc_within_ring[of 1024 4] by simp

text \<open>
  C8, as stated, fails: the loop multiplies by the rounded quotient \<^verbatim>\<open>t = y / (height - 1)\<close>.
  For \<open>height = 11\<close>, top 0 and bottom 90, row 7 has \<^verbatim>\<open>t = 0.7\<close> rounded down, the product is
  just below 63 and the stored channel is 62, where the interpolation
  \<open>top + (bottom - top) * y / (height - 1)\<close> is 63, in exact arithmetic and in floats
  evaluated in that order alike.
\<close>

theorem gradient_row_is_not_the_interpolation:
  "\<exists>col. make_vertical_gradient 11 (0, 0, 0, 0) (90, 90, 90, 90) = Inr col
     \<and> getpixel col (0, 7) = Some (62, 62, 62, 62)
     \<and> exact_lerp 11 0 90 7 = 63
     \<and> and_then (truediv ((90 - 0) * 7) (11 - 1)) (\<lambda>q.
         and_then (float_of_int 0) (\<lambda>c. int_of_float (fadd c q))) = Inr 63"
proof -
  have h: "(0::int) \<le> 11" by simp
  have b0: "byte 0" and b90: "byte 90" by (simp_all add: byte_def)
  from make_vertical_gradient_ok[OF h b0 b0 b0 b0 b90 b90 b90 b90]
  obtain col where col: "make_vertical_gradient 11 (0, 0, 0, 0) (90, 90, 90, 90) = Inr col"
    and px: "\<forall>y. 0 \<le> y \<and> y < 11 \<longrightarrow>
               getpixel col (0, y) = Some (gradient_pixel 11 (0, 0, 0, 0) (90, 90, 90, 90) y)"
    by (elim exE conjE)
  have y: "(0::int) \<le> 7 \<and> (7::int) < 11" by simp
  from px[rule_format, OF y]
  have stored: "getpixel col (0, 7) = Some (gradient_pixel 11 (0, 0, 0, 0) (90, 90, 90, 90) 7)" .
  have c: "code_lerp 11 0 90 7 = 62" by code_simp
  have "gradient_pixel 11 (0, 0, 0, 0) (90, 90, 90, 90) 7 =
          (code_lerp 11 0 90 7, code_lerp 11 0 90 7, code_lerp 11 0 90 7, code_lerp 11 0 90 7)"
    by (rule gradient_pixel_code)
  with stored have row: "getpixel col (0, 7) = Some (62, 62, 62, 62)" by (simp only: c)
  have ex: "exact_lerp 11 0 90 7 = 63" by (simp add: exact_lerp_def)
  have fl: "and_then (truediv ((90 - 0) * 7) (11 - 1)) (\<lambda>q.
              and_then (float_of_int 0) (\<lambda>c. int_of_float (fadd c q))) = Inr 63" by code_simp
  show ?thesis
    by (intro exI[of _ col] conjI) (rule col row ex fl)+
qed

text \<open>
  C8, amended: for every \<open>height \<ge> 1\<close> and byte-valued colours, \<^verbatim>\<open>_make_vertical_gradient\<close>
  returns a 1 by \<open>height\<close> RGBA image whose pixel at row \<open>y\<close> holds, in every channel, the
  value \<^verbatim>\<open>int(top + (bottom - top) * t)\<close> computed in floats with \<^verbatim>\<open>t = y / max(1, height - 1)\<close>;
  that value lies between the top and the bottom value and is within 1 of the exact
  interpolation.  The top row is the top colour; for \<open>height \<ge> 2\<close> the bottom row is the
  bottom colour; for \<open>height = 1\<close> the divisor is 1 and the single row is the top colour.
\<close>

theorem gradient_rows_interpolate:
  assumes "1 \<le> height"
    and "byte t0" "byte t1" "byte t2" "byte t3" "byte b0" "byte b1" "byte b2" "byte b3"
  shows "\<exists>col. make_vertical_gradient height (t0, t1, t2, t3) (b0, b1, b2, b3) = Inr col
           \<and> size_of col = (1, height) \<and> mode_of col = RGBA
           \<and> (\<forall>y. 0 \<le> y \<and> y < height \<longrightarrow>
                 getpixel col (0, y) =
                   Some (code_lerp height t0 b0 y, code_lerp height t1 b1 y,
                         code_lerp height t2 b2 y, code_lerp height t3 b3 y))
           \<and> (\<forall>t b y. byte t \<and> byte b \<and> 0 \<le> y \<and> y < height \<longrightarrow>
                 min t b \<le> code_lerp height t b y \<and> code_lerp height t b y \<le> max t b
                 \<and> \<bar>code_lerp height t b y - exact_lerp height t b y\<bar> \<le> 1)
           \<and> getpixel col (0, 0) = Some (t0, t1, t2, t3)
           \<and> (2 \<le> height \<longrightarrow> getpixel col (0, height - 1) = Some (b0, b1, b2, b3))
           \<and> (height = 1 \<longrightarrow> max 1 (height - 1) = 1 \<and> getpixel col (0, 0) = Some (t0, t1, t2, t3))"
proof -
  have h0: "0 \<le> height" using assms(1) by simp
  obtain col where col: "make_vertical_gradient height (t0, t1, t2, t3) (b0, b1, b2, b3) = Inr col"
    and sz: "size_of col = (1, height)" and md: "mode_of col = RGBA"
    and px: "\<forall>y. 0 \<le> y \<and> y < height \<longrightarrow>
               getpixel col (0, y) = Some (gradient_pixel height (t0, t1, t2, t3) (b0, b1, b2, b3) y)"
    using make_vertical_gradient_ok[OF h0 assms(2-9)] by blast
  have inside: "y \<le> max 1 (height - 1)" if "y < height" for y
    using that by simp
  have rows: "getpixel col (0, y) =
                Some (code_lerp height t0 b0 y, code_lerp height t1 b1 y,
                      code_lerp height t2 b2 y, code_lerp height t3 b3 y)"
    if y: "0 \<le> y" "y < height" for y
  proof -
    from px y have "getpixel col (0, y) = Some (gradient_pixel height (t0, t1, t2, t3) (b0, b1, b2, b3) y)"
      by simp
    then show ?thesis
      by (simp only: gradient_pixel_code)
  qed
  have chan: "min t b \<le> code_lerp height t b y \<and> code_lerp height t b y \<le> max t b
              \<and> \<bar>code_lerp height t b y - exact_lerp height t b y\<bar> \<le> 1"
    if "byte t" "byte b" "0 \<le> y" "y < height" for t b y
    using code_lerp_range[OF that(1,2,3) inside[OF that(4)]]
      code_lerp_close[OF that(1,2,3) inside[OF that(4)]] by (intro conjI)
  have top_row: "getpixel col (0, 0) = Some (t0, t1, t2, t3)"
  proof -
    have "getpixel col (0, 0) =
            Some (code_lerp height t0 b0 0, code_lerp height t1 b1 0,
                  code_lerp height t2 b2 0, code_lerp height t3 b3 0)"
      using assms(1) by (intro rows) simp_all
    then show ?thesis
      by (simp only: code_lerp_top[OF assms(2) assms(6)] code_lerp_top[OF assms(3) assms(7)]
            code_lerp_top[OF assms(4) assms(8)] code_lerp_top[OF assms(5) assms(9)])
  qed
  have bottom_row: "getpixel col (0, height - 1) = Some (b0, b1, b2, b3)" if h2: "2 \<le> height"
  proof -
    have "getpixel col (0, height - 1) =
            Some (code_lerp height t0 b0 (height - 1), code_lerp height t1 b1 (height - 1),
                  code_lerp height t2 b2 (height - 1), code_lerp height t3 b3 (height - 1))"
      using h2 by (intro rows) simp_all
    then show ?thesis
      by (simp only: code_lerp_bottom[OF assms(2) assms(6) h2] code_lerp_bottom[OF assms(3) assms(7) h2]
            code_lerp_bottom[OF assms(4) assms(8) h2] code_lerp_bottom[OF assms(5) assms(9) h2])
  qed
  show ?thesis
  proof (intro exI[of _ col] conjI allI impI)
    show "make_vertical_gradient height (t0, t1, t2, t3) (b0, b1, b2, b3) = Inr col" by (fact col)
    show "size_of col = (1, height)" by (fact sz)
    show "mode_of col = RGBA" by (fact md)
    show "getpixel col (0, 0) = Some (t0, t1, t2, t3)" by (fact top_row)
    show "getpixel col (0, 0) = Some (t0, t1, t2, t3)" by (fact top_row)
    show "getpixel col (0, height - 1) = Some (b0, b1, b2, b3)" if "2 \<le> height"
      using that by (rule bottom_row)
    show "max 1 (height - 1) = 1" if "height = 1" using that by simp
    show "getpixel col (0, y) =
            Some (code_lerp height t0 b0 y, code_lerp height t1 b1 y,
                  code_lerp height t2 b2 y, code_lerp height t3 b3 y)"
      if "0 \<le> y \<and> y < height" for y
      using that by (intro rows) simp_all
    show "min t b \<le> code_lerp height t b y" if "byte t \<and> byte b \<and> 0 \<le> y \<and> y < height" for t b y
      using that chan[of t b y] by blast
    show "code_lerp height t b y \<le> max t b" if "byte t \<and> byte b \<and> 0 \<le> y \<and> y < height" for t b y
      using that chan[of t b y] by blast
    show "\<bar>code_lerp height t b y - exact_lerp height t b y\<bar> \<le> 1"
      if "byte t \<and> byte b \<and> 0 \<le> y \<and> y < height" for t b y
      using that chan[of t b y] by blast
  qed
qed

theorem gradient_rows_interpolate_witness:
  "(1::int) \<le> 4096
   \<and> byte 245 \<and> byte 150 \<and> byte 45 \<and> byte 255 \<and> byte 205 \<and> byte 120 \<and> byte 35 \<and> byte 255
   \<and> (\<exists>col. make_vertical_gradient 4096 (245, 150, 45, 255) (205, 120, 35, 255) = Inr col
         \<and> size_of col = (1, 4096) \<and> mode_of col = RGBA
         \<and> getpixel col (0, 0) = Some (245, 150, 45, 255)
         \<and> getpixel col (0, 4095) = Some (205, 120, 35, 255))"
proof -
  have h: "(1::int) \<le> 4096" by simp
  have c: "byte 245" "byte 150" "byte 45" "byte 255" "byte 205" "byte 120" "byte 35"
    by (simp_all add: byte_def)
  from gradient_rows_interpolate[OF h c(1) c(2) c(3) c(4) c(5) c(6) c(7) c(4)]
  obtain col where "make_vertical_gradient 4096 (245, 150, 45, 255) (205, 120, 35, 255) = Inr col"
    and "size_of col = (1, 4096)" and "mode_of col = RGBA"
    and "getpixel col (0, 0) = Some (245, 150, 45, 255)"
    and "2 \<le> (4096::int) \<longrightarrow> getpixel col (0, 4096 - 1) = Some (205, 120, 35, 255)"
    by (elim exE conjE)
  then have "\<exists>col. make_vertical_gradient 4096 (245, 150, 45, 255) (205, 120, 35, 255) = Inr col
         \<and> size_of col = (1, 4096) \<and> mode_of col = RGBA
         \<and> getpixel col (0, 0) = Some (245, 150, 45, 255)
         \<and> getpixel col (0, 4095) = Some (205, 120, 35, 255)"
    by (intro exI[of _ col] conjI) simp_all
  with h c show ?thesis by (intro conjI)
qed

section \<open>Statements about the exporter\<close>

text \<open>
  C1: on files where the exporter meets no regular file in place of a directory, \<^verbatim>\<open>write_iconset\<close>
  leaves in the iconset directory exactly the ten names of its table and nothing deeper; the entry of each
  name is a PNG of the table's pixel size, the one \<^verbatim>\<open>resize\<close> returns for the base image
  with the Lanczos filter.
\<close>

theorem write_iconset_ten_files:
  assumes "wf_fs fs" and "iconset_dir \<noteq> []"
    and "clear_path fs iconset_dir"
  shows "\<exists>fs'. write_iconset base_png iconset_dir fs = (None, fs')
           \<and> {n. fs' (iconset_dir @ [n]) \<noteq> None} =
               {''icon_16x16.png'', ''icon_16x16@2x.png'', ''icon_32x32.png'', ''icon_32x32@2x.png'',
                ''icon_128x128.png'', ''icon_128x128@2x.png'', ''icon_256x256.png'',
                ''icon_256x256@2x.png'', ''icon_512x512.png'', ''icon_512x512@2x.png''}
           \<and> card {n. fs' (iconset_dir @ [n]) \<noteq> None} = 10
           \<and> (\<forall>q. strict_prefix iconset_dir q \<longrightarrow> length q \<noteq> Suc (length iconset_dir) \<longrightarrow>
                 fs' q = None)
           \<and> (\<forall>(n, px)\<in>set
                 [(''icon_16x16.png'', 16), (''icon_16x16@2x.png'', 32), (''icon_32x32.png'', 32),
                  (''icon_32x32@2x.png'', 64), (''icon_128x128.png'', 128),
                  (''icon_128x128@2x.png'', 256), (''icon_256x256.png'', 256),
                  (''icon_256x256@2x.png'', 512), (''icon_512x512.png'', 512),
                  (''icon_512x512@2x.png'', 1024)].
                \<exists>img. resize base_png (px, px) LANCZOS = Inr img \<and> size_of img = (px, px)
                      \<and> fs' (iconset_dir @ [n]) = Some (File (PNG img)))"
proof -
  from write_iconset_result[OF assms, of base_png] obtain fs' where
    run: "write_iconset base_png iconset_dir fs = (None, fs')"
    and ins: "\<forall>(n, px)\<in>set sizes. fs' (iconset_dir @ [n]) = Some (File (PNG (resized base_png px)))"
    and rest: "\<forall>q. strict_prefix iconset_dir q \<longrightarrow> q \<notin> (\<lambda>n. iconset_dir @ [n]) ` fst ` set sizes
                 \<longrightarrow> fs' q = None"
    by blast
  have names: "{n. fs' (iconset_dir @ [n]) \<noteq> None} = fst ` set sizes"
  proof (intro equalityI subsetI)
    fix n assume "n \<in> {n. fs' (iconset_dir @ [n]) \<noteq> None}"
    then have some: "fs' (iconset_dir @ [n]) \<noteq> None" by simp
    have below: "strict_prefix iconset_dir (iconset_dir @ [n])" by (simp add: strict_prefix_def)
    have "iconset_dir @ [n] \<in> (\<lambda>n. iconset_dir @ [n]) ` fst ` set sizes"
    proof (rule ccontr)
      assume "iconset_dir @ [n] \<notin> (\<lambda>n. iconset_dir @ [n]) ` fst ` set sizes"
      with rest[rule_format, OF below] have "fs' (iconset_dir @ [n]) = None" .
      with some show False by simp
    qed
    then obtain m where "m \<in> fst ` set sizes" and "iconset_dir @ [n] = iconset_dir @ [m]" by (rule imageE)
    then show "n \<in> fst ` set sizes" by simp
  next
    fix n assume "n \<in> fst ` set sizes"
    then obtain px where "(n, px) \<in> set sizes" by auto
    with ins have "fs' (iconset_dir @ [n]) = Some (File (PNG (resized base_png px)))" by blast
    then show "n \<in> {n. fs' (iconset_dir @ [n]) \<noteq> None}" by simp
  qed
  have listed: "fst ` set sizes =
               {''icon_16x16.png'', ''icon_16x16@2x.png'', ''icon_32x32.png'', ''icon_32x32@2x.png'',
                ''icon_128x128.png'', ''icon_128x128@2x.png'', ''icon_256x256.png'',
                ''icon_256x256@2x.png'', ''icon_512x512.png'', ''icon_512x512@2x.png''}"
    by (simp only: sizes_def list.set image_insert image_empty fst_conv)
  have "card (fst ` set sizes) = length (map fst sizes)"
    using distinct_card[OF sizes_distinct] by simp
  then have ten: "card (fst ` set sizes) = 10" by (simp add: sizes_def)
  have each: "\<exists>img. resize base_png (px, px) LANCZOS = Inr img \<and> size_of img = (px, px)
                \<and> fs' (iconset_dir @ [n]) = Some (File (PNG img))" if "(n, px) \<in> set sizes" for n px
    using that ins sizes_positive[OF that] by (auto simp: resize_lanczos size_of_resized)
  have every: "\<forall>(n, px)\<in>set sizes. \<exists>img. resize base_png (px, px) LANCZOS = Inr img \<and> size_of img = (px, px)
                \<and> fs' (iconset_dir @ [n]) = Some (File (PNG img))"
    using each by blast
  show ?thesis
  proof (intro exI[of _ fs'] conjI)
    show "write_iconset base_png iconset_dir fs = (None, fs')" by (fact run)
    show "{n. fs' (iconset_dir @ [n]) \<noteq> None} =
               {''icon_16x16.png'', ''icon_16x16@2x.png'', ''icon_32x32.png'', ''icon_32x32@2x.png'',
                ''icon_128x128.png'', ''icon_128x128@2x.png'', ''icon_256x256.png'',
                ''icon_256x256@2x.png'', ''icon_512x512.png'', ''icon_512x512@2x.png''}"
      using names listed by (rule trans)
    show "card {n. fs' (iconset_dir @ [n]) \<noteq> None} = 10"
      using ten by (simp only: names)
    show "\<forall>q. strict_prefix iconset_dir q \<longrightarrow> length q \<noteq> Suc (length iconset_dir) \<longrightarrow>
                 fs' q = None"
    proof (intro allI impI)
      fix q assume below: "strict_prefix iconset_dir q"
        and len: "length q \<noteq> Suc (length iconset_dir)"
      have "q \<notin> (\<lambda>n. iconset_dir @ [n]) ` fst ` set sizes"
      proof
        assume "q \<in> (\<lambda>n. iconset_dir @ [n]) ` fst ` set sizes"
        then obtain m where "q = iconset_dir @ [m]" by (rule imageE)
        with len show False by simp
      qed
      with rest[rule_format, OF below] show "fs' q = None" .
    qed
    show "\<forall>(n, px)\<in>set
                 [(''icon_16x16.png'', 16), (''icon_16x16@2x.png'', 32), (''icon_32x32.png'', 32),
                  (''icon_32x32@2x.png'', 64), (''icon_128x128.png'', 128),
                  (''icon_128x128@2x.png'', 256), (''icon_256x256.png'', 256),
                  (''icon_256x256@2x.png'', 512), (''icon_512x512.png'', 512),
                  (''icon_512x512@2x.png'', 1024)].
                \<exists>img. resize base_png (px, px) LANCZOS = Inr img \<and> size_of img = (px, px)
                      \<and> fs' (iconset_dir @ [n]) = Some (File (PNG img))"
      using every unfolding sizes_def .
  qed
qed

theorem write_iconset_ten_files_witness:
  "wf_fs Map.empty \<and> [''oxidate.iconset''] \<noteq> []
   \<and> clear_path Map.empty [''oxidate.iconset'']
   \<and> (\<exists>fs'. write_iconset (New RGBA 64 64 (Color BG)) [''oxidate.iconset''] Map.empty = (None, fs')
         \<and> card {n. fs' ([''oxidate.iconset''] @ [n]) \<noteq> None} = 10)"
proof -
  have h1: "wf_fs Map.empty" by (simp add: wf_fs_def)
  have h2: "[''oxidate.iconset''] \<noteq> []" by simp
  have h3: "clear_path Map.empty [''oxidate.iconset'']"
    by (simp add: clear_path_def node_at_def is_file_def)
  from write_iconset_ten_files[OF h1 h2 h3, of "New RGBA 64 64 (Color BG)"]
  obtain fs' where "write_iconset (New RGBA 64 64 (Color BG)) [''oxidate.iconset''] Map.empty = (None, fs')"
    and "card {n. fs' ([''oxidate.iconset''] @ [n]) \<noteq> None} = 10"
    by (elim exE conjE)
  then have "\<exists>fs'. write_iconset (New RGBA 64 64 (Color BG)) [''oxidate.iconset''] Map.empty = (None, fs')
         \<and> card {n. fs' ([''oxidate.iconset''] @ [n]) \<noteq> None} = 10"
    by (intro exI conjI)
  with h1 h2 h3 show ?thesis by (intro conjI)
qed

text \<open>
  C4: when the iconset directory already exists, \<^verbatim>\<open>write_iconset\<close> runs as on the files with
  that directory and everything below it removed, and afterwards whatever lies below the
  directory is one of the ten files of the table, freshly written: nothing of an earlier
  population survives.
\<close>

theorem write_iconset_replaces_directory:
  assumes "wf_fs fs" and "iconset_dir \<noteq> []" and "fs iconset_dir = Some Dir"
  shows "\<exists>fs'. write_iconset base_png iconset_dir fs = (None, fs')
           \<and> write_iconset base_png iconset_dir fs =
               seq (mkdir iconset_dir) (write_entries base_png iconset_dir sizes)
                 (\<lambda>q. if prefix iconset_dir q then None else fs q)
           \<and> fs' iconset_dir = Some Dir
           \<and> (\<forall>(n, px)\<in>set sizes.
                 fs' (iconset_dir @ [n]) = Some (File (PNG (resized base_png px))))
           \<and> (\<forall>q. strict_prefix iconset_dir q \<longrightarrow> fs' q \<noteq> None \<longrightarrow>
                 (\<exists>(n, px)\<in>set sizes. q = iconset_dir @ [n]))"
proof -
  from assms(2,3) have dir: "node_at fs iconset_dir = Some Dir" by (simp add: node_at_def)
  have clear: "clear_path fs iconset_dir" by (rule wf_clear_path[OF assms(1) dir])
  from write_iconset_result[OF assms(1,2) clear, of base_png] obtain fs' where
    run: "write_iconset base_png iconset_dir fs = (None, fs')"
    and d: "fs' iconset_dir = Some Dir"
    and ins: "\<forall>(n, px)\<in>set sizes. fs' (iconset_dir @ [n]) = Some (File (PNG (resized base_png px)))"
    and rest: "\<forall>q. strict_prefix iconset_dir q \<longrightarrow>
                 q \<notin> (\<lambda>n. iconset_dir @ [n]) ` fst ` set sizes \<longrightarrow> fs' q = None"
    by blast
  have wiped: "write_iconset base_png iconset_dir fs =
               seq (mkdir iconset_dir) (write_entries base_png iconset_dir sizes)
                 (\<lambda>q. if prefix iconset_dir q then None else fs q)"
    using assms(2) dir by (simp add: write_iconset_def seq_def path_exists_def rmtree_def)
  have only: "\<exists>(n, px)\<in>set sizes. q = iconset_dir @ [n]"
    if below: "strict_prefix iconset_dir q" and some: "fs' q \<noteq> None" for q
  proof -
    have "q \<in> (\<lambda>n. iconset_dir @ [n]) ` fst ` set sizes"
    proof (rule ccontr)
      assume "q \<notin> (\<lambda>n. iconset_dir @ [n]) ` fst ` set sizes"
      with rest[rule_format, OF below] have "fs' q = None" .
      with some show False by simp
    qed
    then obtain n where n: "n \<in> fst ` set sizes" and q: "q = iconset_dir @ [n]" by (rule imageE)
    from n obtain px where "(n, px) \<in> set sizes" by auto
    with q show ?thesis by blast
  qed
  show ?thesis
  proof (intro exI[of _ fs'] conjI)
    show "write_iconset base_png iconset_dir fs = (None, fs')" by (fact run)
    show "write_iconset base_png iconset_dir fs =
               seq (mkdir iconset_dir) (write_entries base_png iconset_dir sizes)
                 (\<lambda>q. if prefix iconset_dir q then None else fs q)" by (fact wiped)
    show "fs' iconset_dir = Some Dir" by (fact d)
    show "\<forall>(n, px)\<in>set sizes. fs' (iconset_dir @ [n]) = Some (File (PNG (resized base_png px)))"
      by (fact ins)
    show "\<forall>q. strict_prefix iconset_dir q \<longrightarrow> fs' q \<noteq> None \<longrightarrow>
                 (\<exists>(n, px)\<in>set sizes. q = iconset_dir @ [n])"
      using only by blast
  qed
qed

theorem write_iconset_replaces_directory_witness:
  "wf_fs [[''oxidate.iconset''] \<mapsto> Dir, [''oxidate.iconset'', ''stale.png''] \<mapsto> File (Bytes [7])]
   \<and> [''oxidate.iconset''] \<noteq> []
   \<and> [[''oxidate.iconset''] \<mapsto> Dir, [''oxidate.iconset'', ''stale.png''] \<mapsto> File (Bytes [7])]
        [''oxidate.iconset''] = Some Dir
   \<and> (\<exists>fs'. write_iconset (New RGBA 64 64 (Color BG)) [''oxidate.iconset'']
               [[''oxidate.iconset''] \<mapsto> Dir, [''oxidate.iconset'', ''stale.png''] \<mapsto> File (Bytes [7])]
             = (None, fs')
          \<and> fs' [''oxidate.iconset'', ''stale.png''] = None
          \<and> fs' [''oxidate.iconset'', ''icon_16x16.png'']
               = Some (File (PNG (resized (New RGBA 64 64 (Color BG)) 16))))"
proof -
  let ?fs = "[[''oxidate.iconset''] \<mapsto> Dir, [''oxidate.iconset'', ''stale.png''] \<mapsto> File (Bytes [7])]"
  let ?d = "[''oxidate.iconset'']"
  have h1: "wf_fs ?fs"
    by (auto simp: wf_fs_def node_at_def parent_def split: if_splits)
  have h2: "?d \<noteq> []" by simp
  have h3: "?fs ?d = Some Dir" by simp
  from write_iconset_replaces_directory[OF h1 h2 h3, of "New RGBA 64 64 (Color BG)"]
  obtain fs' where run: "write_iconset (New RGBA 64 64 (Color BG)) ?d ?fs = (None, fs')"
    and ins: "\<forall>(n, px)\<in>set sizes. fs' (?d @ [n]) = Some (File (PNG (resized (New RGBA 64 64 (Color BG)) px)))"
    and only: "\<forall>q. strict_prefix ?d q \<longrightarrow> fs' q \<noteq> None \<longrightarrow> (\<exists>(n, px)\<in>set sizes. q = ?d @ [n])"
    by (elim exE conjE)
  have stale: "fs' [''oxidate.iconset'', ''stale.png''] = None"
  proof (rule ccontr)
    assume some: "fs' [''oxidate.iconset'', ''stale.png''] \<noteq> None"
    have "strict_prefix ?d [''oxidate.iconset'', ''stale.png'']" by (simp add: strict_prefix_def)
    from only[rule_format, OF this some] obtain n px where
      "(n, px) \<in> set sizes" and "[''oxidate.iconset'', ''stale.png''] = ?d @ [n]" by blast
    then have "(''stale.png'', px) \<in> set sizes" by simp
    then show False by (simp add: sizes_def)
  qed
  have "(''icon_16x16.png'', 16) \<in> set sizes" by (simp add: sizes_def)
  with ins have "fs' (?d @ [''icon_16x16.png'']) = Some (File (PNG (resized (New RGBA 64 64 (Color BG)) 16)))"
    by blast
  then have fresh: "fs' [''oxidate.iconset'', ''icon_16x16.png'']
               = Some (File (PNG (resized (New RGBA 64 64 (Color BG)) 16)))" by simp
  from run stale fresh have "\<exists>fs'. write_iconset (New RGBA 64 64 (Color BG)) ?d ?fs = (None, fs')
          \<and> fs' [''oxidate.iconset'', ''stale.png''] = None
          \<and> fs' [''oxidate.iconset'', ''icon_16x16.png'']
               = Some (File (PNG (resized (New RGBA 64 64 (Color BG)) 16)))"
    by (intro exI conjI)
  with h1 h2 h3 show ?thesis by (intro conjI)
qed

text \<open>
  C9, as stated, fails: for \<open>base_size = 64\<close>, \<open>supersample = 1\<close> the renderer's output is 64 by 64,
  but the exporter writes \<^verbatim>\<open>icon_512x512@2x.png\<close> with the size of its table, 1024 by 1024,
  not 64 by 64.
\<close>

theorem icon_512_2x_is_not_64:
  "\<exists>img fs' out. render_icon 64 1 = Inr img \<and> size_of img = (64, 64)
     \<and> write_iconset img [''oxidate.iconset''] Map.empty = (None, fs')
     \<and> fs' [''oxidate.iconset'', ''icon_512x512@2x.png''] = Some (File (PNG out))
     \<and> size_of out = (1024, 1024) \<and> size_of out \<noteq> (64, 64)"
proof -
  obtain img where img: "render_icon 64 1 = Inr img" "size_of img = (64, 64)"
    using render_icon_ok[of 64 1] by auto
  have "wf_fs Map.empty" by (simp add: wf_fs_def)
  moreover have "[''oxidate.iconset''] \<noteq> []" by simp
  moreover have "clear_path Map.empty [''oxidate.iconset'']"
    by (simp add: clear_path_def node_at_def is_file_def)
  ultimately obtain fs' where run: "write_iconset img [''oxidate.iconset''] Map.empty = (None, fs')"
    and ins: "\<forall>(n, px)\<in>set sizes. fs' ([''oxidate.iconset''] @ [n]) = Some (File (PNG (resized img px)))"
    using write_iconset_result[of Map.empty "[''oxidate.iconset'']" img] by blast
  have "(''icon_512x512@2x.png'', 1024) \<in> set sizes" by (simp add: sizes_def)
  with ins have "fs' ([''oxidate.iconset''] @ [''icon_512x512@2x.png'']) = Some (File (PNG (resized img 1024)))"
    by blast
  then have "fs' [''oxidate.iconset'', ''icon_512x512@2x.png''] = Some (File (PNG (resized img 1024)))"
    by simp
  moreover have "size_of (resized img 1024) = (1024, 1024)" by (rule size_of_resized)
  ultimately show ?thesis using img run by auto
qed

text \<open>
  C9, amended: for \<open>base_size = 64\<close>, \<open>supersample = 1\<close> the renderer's output is a 64 by 64 RGBA
  image, and the exporter writes \<^verbatim>\<open>icon_512x512@2x.png\<close> as the 1024 by 1024 image that
  resampling this base with the Lanczos filter gives.
\<close>

theorem icon_512_2x_from_64:
  assumes "wf_fs fs" and "iconset_dir \<noteq> []" and "clear_path fs iconset_dir"
  shows "\<exists>img fs' out. render_icon 64 1 = Inr img \<and> size_of img = (64, 64) \<and> mode_of img = RGBA
           \<and> write_iconset img iconset_dir fs = (None, fs')
           \<and> resize img (1024, 1024) LANCZOS = Inr out \<and> size_of out = (1024, 1024)
           \<and> fs' (iconset_dir @ [''icon_512x512@2x.png'']) = Some (File (PNG out))"
proof -
  obtain img where img: "render_icon 64 1 = Inr img" "size_of img = (64, 64)" "mode_of img = RGBA"
    using render_icon_ok[of 64 1] by auto
  obtain fs' where run: "write_iconset img iconset_dir fs = (None, fs')"
    and ins: "\<forall>(n, px)\<in>set sizes. fs' (iconset_dir @ [n]) = Some (File (PNG (resized img px)))"
    using write_iconset_result[OF assms, of img] by blast
  have "(''icon_512x512@2x.png'', 1024) \<in> set sizes" by (simp add: sizes_def)
  with ins have entry: "fs' (iconset_dir @ [''icon_512x512@2x.png'']) = Some (File (PNG (resized img 1024)))"
    by blast
  have rs: "resize img (1024, 1024) LANCZOS = Inr (resized img 1024)"
    by (rule resize_lanczos) simp
  have "size_of (resized img 1024) = (1024, 1024)" by (rule size_of_resized)
  with img run rs entry show ?thesis by blast
qed

theorem icon_512_2x_from_64_witness:
  "wf_fs Map.empty \<and> [''assets'', ''oxidate.iconset''] \<noteq> []
   \<and> clear_path Map.empty [''assets'', ''oxidate.iconset'']
   \<and> (\<exists>img fs' out. render_icon 64 1 = Inr img \<and> size_of img = (64, 64) \<and> mode_of img = RGBA
           \<and> write_iconset img [''assets'', ''oxidate.iconset''] Map.empty = (None, fs')
           \<and> resize img (1024, 1024) LANCZOS = Inr out \<and> size_of out = (1024, 1024)
           \<and> fs' ([''assets'', ''oxidate.iconset''] @ [''icon_512x512@2x.png'']) = Some (File (PNG out)))"
proof -
  have h1: "wf_fs Map.empty" by (simp add: wf_fs_def)
  have h2: "[''assets'', ''oxidate.iconset''] \<noteq> []" by simp
  have h3: "clear_path Map.empty [''assets'', ''oxidate.iconset'']"
    by (simp add: clear_path_def node_at_def is_file_def)
  from icon_512_2x_from_64[OF h1 h2 h3] h1 h2 h3 show ?thesis by (intro conjI)
qed

section \<open>Statements about the pipeline\<close>

lemma seq_cases:
  assumes "seq f g fs = (r, fs')"
  obtains (first) e where "f fs = (Some e, fs')" and "r = Some e"
        | (second) fs1 where "f fs = (None, fs1)" and "g fs1 = (r, fs')"
proof (cases "f fs")
  case (Pair r1 fs1)
  show ?thesis
  proof (cases r1)
    case None
    with Pair assms have "g fs1 = (r, fs')" by (simp add: seq_def)
    with Pair None show ?thesis by (intro second) simp_all
  next
    case (Some e)
    with Pair assms have "r = Some e" "fs' = fs1" by (simp_all add: seq_def)
    with Pair Some show ?thesis by (intro first) simp_all
  qed
qed

lemma seq_None:
  assumes "f fs = (None, fs1)"
  shows "seq f g fs = g fs1"
  using assms by (simp add: seq_def)

lemma seq_Some:
  assumes "f fs = (Some e, fs1)"
  shows "seq f g fs = (Some e, fs1)"
  using assms by (simp add: seq_def)

lemma mkdir_frame:
  "mkdir p fs = (r, fs') \<Longrightarrow> fs q \<noteq> None \<Longrightarrow> fs' q = fs q"
  unfolding mkdir_def by (rule mkdirs_unchanged) simp_all

lemma write_png_success:
  assumes "write_png img p fs = (None, fs')"
  shows "fs' p = Some (File (PNG img))"
    and "prefix q (parent p) \<Longrightarrow> node_at fs' q = Some Dir"
proof -
  from assms obtain fs1 where mk: "mkdir (parent p) fs = (None, fs1)"
    and sv: "save img p fs1 = (None, fs')"
    unfolding write_png_def by (rule seq_cases) simp_all
  from save_success[OF sv] have fs': "fs' = fs1(p \<mapsto> File (PNG img))" .
  then show "fs' p = Some (File (PNG img))" by simp
  assume q: "prefix q (parent p)"
  then have "q \<in> set (prefixes (parent p))" by simp
  with mk have dir: "node_at fs1 q = Some Dir"
    unfolding mkdir_def by (rule mkdirs_success_dirs)
  have "p \<noteq> []" using sv by (auto simp: save_def node_at_def)
  then have "length (parent p) < length p" by (simp add: parent_def)
  moreover from q have "length q \<le> length (parent p)" by (rule prefix_length_le)
  ultimately have "q \<noteq> p" by auto
  with dir fs' show "node_at fs' q = Some Dir" by (auto simp: node_at_def split: if_splits)
qed

lemma write_png_frame:
  assumes "write_png img p fs = (r, fs')" and "q \<noteq> p" and "fs q \<noteq> None"
  shows "fs' q = fs q"
  using assms(1) unfolding write_png_def
proof (cases rule: seq_cases)
  case (first e)
  from mkdir_frame[OF first(1) assms(3)] show ?thesis .
next
  case (second fs1)
  from mkdir_frame[OF second(1) assms(3)] have a: "fs1 q = fs q" .
  from second(2) assms(2) have "fs' q = fs1 q"
    by (auto simp: save_def split: option.splits node.splits)
  with a show ?thesis by simp
qed

lemma rmtree_frame:
  "(if path_exists fs d then rmtree d fs else (None, fs)) = (r, fs1) \<Longrightarrow> \<not> prefix d q
   \<Longrightarrow> fs1 q = fs q"
  by (auto simp: rmtree_def split: if_splits option.splits node.splits)

lemma write_iconset_frame:
  assumes run: "write_iconset base d fs = (r, fs')" and out: "\<not> prefix d q" and some: "fs q \<noteq> None"
  shows "fs' q = fs q"
  using run unfolding write_iconset_def
proof (cases rule: seq_cases)
  case (first e)
  from rmtree_frame[OF first(1) out] show ?thesis .
next
  case (second fs1)
  from rmtree_frame[OF second(1) out] have a: "fs1 q = fs q" .
  from second(2) show ?thesis
  proof (cases rule: seq_cases)
    case (first e)
    from mkdir_frame[OF first(1)] a some show ?thesis by simp
  next
    case (second fs2)
    from mkdir_frame[OF second(1)] a some have b: "fs2 q = fs q" by simp
    from out have "q \<notin> (\<lambda>n. d @ [n]) ` fst ` set sizes" by auto
    from write_entries_frame[OF second(2) this] b show ?thesis by simp
  qed
qed

lemma write_iconset_success:
  assumes run: "write_iconset base d fs = (None, fs')" and d: "d \<noteq> []"
  shows "fs' d = Some Dir"
    and "\<forall>(n, px)\<in>set sizes. fs' (d @ [n]) = Some (File (PNG (resized base px)))"
proof -
  from run obtain fs1 where "seq (mkdir d) (write_entries base d sizes) fs1 = (None, fs')"
    unfolding write_iconset_def by (rule seq_cases) simp_all
  then obtain fs2 where mk: "mkdir d fs1 = (None, fs2)"
    and we: "write_entries base d sizes fs2 = (None, fs')"
    by (rule seq_cases) simp_all
  have "d \<in> set (prefixes d)" by simp
  with mk have "node_at fs2 d = Some Dir" unfolding mkdir_def by (rule mkdirs_success_dirs)
  with d have d2: "fs2 d = Some Dir" by (simp add: node_at_def)
  have "d \<notin> (\<lambda>n. d @ [n]) ` fst ` set sizes" by auto
  from write_entries_frame[OF we this] d2 show "fs' d = Some Dir" by simp
  have "\<forall>(n, px)\<in>set sizes. 1 \<le> px" using sizes_positive by blast
  from write_entries_success[OF we sizes_distinct this]
  show "\<forall>(n, px)\<in>set sizes. fs' (d @ [n]) = Some (File (PNG (resized base px)))" .
qed

lemma subprocess_run_frame:
  "subprocess_run iconutil src dst fs = (r, fs') \<Longrightarrow> q \<noteq> dst \<Longrightarrow> fs' q = fs q"
  by (auto simp: subprocess_run_def split: launch.splits option.splits)

lemma build_icns_frame:
  assumes "build_icns iconutil d p fs = (r, fs')" and "q \<noteq> p" and "fs q \<noteq> None"
  shows "fs' q = fs q"
  using assms(1) unfolding build_icns_def
proof (cases rule: seq_cases)
  case (first e)
  from mkdir_frame[OF first(1) assms(3)] show ?thesis .
next
  case (second fs1)
  from mkdir_frame[OF second(1) assms(3)] subprocess_run_frame[OF second(2) assms(2)]
  show ?thesis by simp
qed

lemma main_unfold:
  assumes "render_icon (base_size a) (clamped_supersample a) = Inr base"
    and "seq (write_png base (assets_dir a @ [''oxidate.png'']))
           (seq (write_iconset base (assets_dir a @ [''oxidate.iconset'']))
              (build_icns iconutil (assets_dir a @ [''oxidate.iconset''])
                 (assets_dir a @ [''oxidate.icns'']))) fs = (r, fs')"
  shows "main iconutil a fs =
           (r, fs', if r = None
                    then [''wrote '' @ path_str (assets_dir a @ [''oxidate.png'']),
                          ''wrote '' @ path_str (assets_dir a @ [''oxidate.icns''])]
                    else [])"
  using assms by (cases r) (simp_all add: main_def Let_def)

lemma main_render_fails:
  assumes "render_icon (base_size a) (clamped_supersample a) = Inl e"
  shows "main iconutil a fs = (Some e, fs, [])"
  using assms by (simp add: main_def Let_def)

lemma mkdirs_existing:
  "\<forall>p\<in>set ps. node_at fs p = Some Dir \<Longrightarrow> mkdirs ps fs = (None, fs)"
  by (induction ps) simp_all

lemma siblings_apart [simp]:
  "\<not> prefix (d @ [''oxidate.iconset'']) (d @ [''oxidate.png''])"
  "d @ [''oxidate.png''] \<noteq> d @ [''oxidate.icns'']"
  "d @ [''oxidate.iconset''] \<noteq> d @ [''oxidate.icns'']"
  "d @ [''oxidate.iconset'', n] \<noteq> d @ [''oxidate.icns'']"
  by simp_all

lemma main_keeps_png:
  assumes render: "render_icon (base_size a) (clamped_supersample a) = Inr base"
    and png: "write_png base (assets_dir a @ [''oxidate.png'']) fs = (None, fs1)"
  shows "fst (snd (main iconutil a fs)) (assets_dir a @ [''oxidate.png'']) = Some (File (PNG base))"
proof -
  let ?png = "assets_dir a @ [''oxidate.png'']"
  let ?dir = "assets_dir a @ [''oxidate.iconset'']"
  let ?icns = "assets_dir a @ [''oxidate.icns'']"
  have at1: "fs1 ?png = Some (File (PNG base))" by (rule write_png_success(1)[OF png])
  obtain r fs' where rest: "seq (write_iconset base ?dir) (build_icns iconutil ?dir ?icns) fs1 = (r, fs')"
    by (cases "seq (write_iconset base ?dir) (build_icns iconutil ?dir ?icns) fs1")
  then have "seq (write_png base ?png) (seq (write_iconset base ?dir) (build_icns iconutil ?dir ?icns)) fs
             = (r, fs')"
    using png by (simp add: seq_def)
  from main_unfold[OF render this] have fin: "fst (snd (main iconutil a fs)) = fs'" by simp
  from rest have "fs' ?png = Some (File (PNG base))"
  proof (cases rule: seq_cases)
    case (first e)
    from write_iconset_frame[OF first(1), of ?png] at1 show ?thesis by simp
  next
    case (second fs2)
    from write_iconset_frame[OF second(1), of ?png] at1 have "fs2 ?png = Some (File (PNG base))" by simp
    with build_icns_frame[OF second(2), of ?png] show ?thesis by simp
  qed
  with fin show ?thesis by simp
qed

lemma build_icns_raises:
  "fst (build_icns iconutil d p fs) \<noteq> None \<longleftrightarrow>
     fst (mkdir (parent p) fs) \<noteq> None \<or> launch_failed (iconutil (snd (mkdir (parent p) fs)) d p)"
proof (cases "mkdir (parent p) fs")
  case (Pair r fs1)
  show ?thesis
  proof (cases r)
    case None
    with Pair show ?thesis
      by (simp add: build_icns_def seq_def subprocess_run_def launch_failed_def split: launch.splits)
  next
    case (Some e)
    with Pair show ?thesis by (simp add: build_icns_def seq_def)
  qed
qed

lemma build_icns_in_main:
  assumes png: "write_png base (assets @ [''oxidate.png'']) fs = (None, fs1)"
    and iconset: "write_iconset base (assets @ [''oxidate.iconset'']) fs1 = (r2, fs2)"
  shows "build_icns iconutil (assets @ [''oxidate.iconset'']) (assets @ [''oxidate.icns'']) fs2 =
           subprocess_run iconutil (assets @ [''oxidate.iconset'']) (assets @ [''oxidate.icns'']) fs2"
proof -
  have "node_at fs2 q = Some Dir" if q: "q \<in> set (prefixes assets)" for q
  proof (cases "q = []")
    case True
    then show ?thesis by (simp add: node_at_def)
  next
    case False
    from q have pre: "prefix q assets" by simp
    then have "prefix q (parent (assets @ [''oxidate.png'']))" by (simp add: parent_def)
    from write_png_success(2)[OF png this] False have a: "fs1 q = Some Dir" by (simp add: node_at_def)
    have "\<not> prefix (assets @ [''oxidate.iconset'']) q"
    proof
      assume "prefix (assets @ [''oxidate.iconset'']) q"
      from this pre have "prefix (assets @ [''oxidate.iconset'']) assets" by (rule prefix_order.trans)
      then have "length (assets @ [''oxidate.iconset'']) \<le> length assets" by (rule prefix_length_le)
      then show False by simp
    qed
    from write_iconset_frame[OF iconset this] a have "fs2 q = Some Dir" by simp
    with False show ?thesis by (simp add: node_at_def)
  qed
  then have "mkdirs (prefixes assets) fs2 = (None, fs2)" by (intro mkdirs_existing) blast
  then have "mkdir (parent (assets @ [''oxidate.icns''])) fs2 = (None, fs2)"
    by (simp add: mkdir_def parent_def)
  then show ?thesis by (simp add: build_icns_def seq_def)
qed

lemma subprocess_run_raises:
  "fst (subprocess_run iconutil src dst fs) \<noteq> None \<longleftrightarrow> launch_failed (iconutil fs src dst)"
  by (simp add: subprocess_run_def launch_failed_def split: launch.splits)

text \<open>A run on empty files, whatever the utility does, used to instantiate the statements below.\<close>

lemma sample_run:
  fixes a :: args and iconutil :: utility
  assumes a: "a = \<lparr>assets_dir = [''assets''], base_size = 16, supersample = 0\<rparr>"
    and tool: "\<And>fs src dst. iconutil fs src dst = l"
  shows "\<exists>base fs1 fs2.
           render_icon (base_size a) (clamped_supersample a) = Inr base
           \<and> write_png base (assets_dir a @ [''oxidate.png'']) Map.empty = (None, fs1)
           \<and> write_iconset base (assets_dir a @ [''oxidate.iconset'']) fs1 = (None, fs2)
           \<and> build_icns iconutil (assets_dir a @ [''oxidate.iconset'']) (assets_dir a @ [''oxidate.icns'']) fs2
               = subprocess_run (\<lambda>fs src dst. l) (assets_dir a @ [''oxidate.iconset''])
                   (assets_dir a @ [''oxidate.icns'']) fs2"
proof -
  have cl: "clamped_supersample a = 1" by (simp add: a clamped_supersample_def)
  obtain base where base: "render_icon 16 1 = Inr base"
    using render_icon_ok[of 16 1] by auto
  let ?fs1 = "[[''assets''] \<mapsto> Dir, [''assets'', ''oxidate.png''] \<mapsto> File (PNG base)]"
  have png: "write_png base ([''assets''] @ [''oxidate.png'']) Map.empty = (None, ?fs1)"
    by (simp add: write_png_def seq_def mkdir_def parent_def node_at_def save_def)
  have wf: "wf_fs ?fs1"
    by (auto simp: wf_fs_def node_at_def parent_def split: if_splits)
  have clear: "clear_path ?fs1 ([''assets''] @ [''oxidate.iconset''])"
    by (simp add: clear_path_def node_at_def is_file_def)
  obtain fs2 where iconset: "write_iconset base ([''assets''] @ [''oxidate.iconset'']) ?fs1 = (None, fs2)"
    using write_iconset_result[OF wf _ clear, of base] by auto
  have tool': "iconutil = (\<lambda>fs src dst. l)" using tool by (intro ext)
  have bi: "build_icns iconutil ([''assets''] @ [''oxidate.iconset'']) ([''assets''] @ [''oxidate.icns'']) fs2
        = subprocess_run (\<lambda>fs src dst. l) ([''assets''] @ [''oxidate.iconset''])
            ([''assets''] @ [''oxidate.icns'']) fs2"
    using build_icns_in_main[OF png iconset, of iconutil] by (simp only: tool')
  have r: "render_icon (base_size a) (clamped_supersample a) = Inr base"
    using base by (simp add: a clamped_supersample_def)
  have ad: "assets_dir a = [''assets'']" by (simp add: a)
  show ?thesis
    unfolding ad
    apply (rule exI[of _ base])
    apply (rule exI[of _ ?fs1])
    apply (rule exI[of _ fs2])
    apply (intro conjI)
       apply (rule r)
      apply (rule png)
     apply (rule iconset)
    apply (rule bi)
    done
qed

text \<open>
  C6: the stages of \<^verbatim>\<open>main\<close> run in order and an exception ends the run.  When the renderer
  raises, the files are untouched; when writing \<^verbatim>\<open>oxidate.png\<close> or the iconset raises, the
  run ends with the files as that stage left them; and when rendering and both writes
  succeed but packaging raises, the run ends with that exception, nothing is printed,
  \<^verbatim>\<open>oxidate.png\<close> holds the base image and the iconset directory holds the ten files.
\<close>

theorem packaging_failure_keeps_outputs:
  "(render_icon (base_size a) (clamped_supersample a) = Inl e0 \<longrightarrow>
      main iconutil a fs = (Some e0, fs, []))
   \<and> (render_icon (base_size a) (clamped_supersample a) = Inr base \<longrightarrow>
      write_png base (assets_dir a @ [''oxidate.png'']) fs = (Some e1, fs1) \<longrightarrow>
      main iconutil a fs = (Some e1, fs1, []))
   \<and> (render_icon (base_size a) (clamped_supersample a) = Inr base \<longrightarrow>
      write_png base (assets_dir a @ [''oxidate.png'']) fs = (None, fs1) \<longrightarrow>
      write_iconset base (assets_dir a @ [''oxidate.iconset'']) fs1 = (Some e2, fs2) \<longrightarrow>
      main iconutil a fs = (Some e2, fs2, []))
   \<and> (render_icon (base_size a) (clamped_supersample a) = Inr base \<longrightarrow>
      write_png base (assets_dir a @ [''oxidate.png'']) fs = (None, fs1) \<longrightarrow>
      write_iconset base (assets_dir a @ [''oxidate.iconset'']) fs1 = (None, fs2) \<longrightarrow>
      build_icns iconutil (assets_dir a @ [''oxidate.iconset'']) (assets_dir a @ [''oxidate.icns'']) fs2
        = (Some e3, fs3) \<longrightarrow>
      main iconutil a fs = (Some e3, fs3, [])
      \<and> fs3 (assets_dir a @ [''oxidate.png'']) = Some (File (PNG base))
      \<and> fs3 (assets_dir a @ [''oxidate.iconset'']) = Some Dir
      \<and> (\<forall>(n, px)\<in>set sizes.
            fs3 (assets_dir a @ [''oxidate.iconset''] @ [n]) = Some (File (PNG (resized base px)))))"
proof (intro conjI impI)
  assume "render_icon (base_size a) (clamped_supersample a) = Inl e0"
  then show "main iconutil a fs = (Some e0, fs, [])" by (rule main_render_fails)
next
  assume render: "render_icon (base_size a) (clamped_supersample a) = Inr base"
    and png: "write_png base (assets_dir a @ [''oxidate.png'']) fs = (Some e1, fs1)"
  from png have "seq (write_png base (assets_dir a @ [''oxidate.png'']))
           (seq (write_iconset base (assets_dir a @ [''oxidate.iconset'']))
              (build_icns iconutil (assets_dir a @ [''oxidate.iconset''])
                 (assets_dir a @ [''oxidate.icns'']))) fs = (Some e1, fs1)"
    by (simp add: seq_def)
  from main_unfold[OF render this] show "main iconutil a fs = (Some e1, fs1, [])" by simp
next
  assume render: "render_icon (base_size a) (clamped_supersample a) = Inr base"
    and png: "write_png base (assets_dir a @ [''oxidate.png'']) fs = (None, fs1)"
    and iconset: "write_iconset base (assets_dir a @ [''oxidate.iconset'']) fs1 = (Some e2, fs2)"
  from png iconset have "seq (write_png base (assets_dir a @ [''oxidate.png'']))
           (seq (write_iconset base (assets_dir a @ [''oxidate.iconset'']))
              (build_icns iconutil (assets_dir a @ [''oxidate.iconset''])
                 (assets_dir a @ [''oxidate.icns'']))) fs = (Some e2, fs2)"
    by (simp add: seq_def)
  from main_unfold[OF render this] show "main iconutil a fs = (Some e2, fs2, [])" by simp
next
  assume render: "render_icon (base_size a) (clamped_supersample a) = Inr base"
    and png: "write_png base (assets_dir a @ [''oxidate.png'']) fs = (None, fs1)"
    and iconset: "write_iconset base (assets_dir a @ [''oxidate.iconset'']) fs1 = (None, fs2)"
    and icns: "build_icns iconutil (assets_dir a @ [''oxidate.iconset''])
                 (assets_dir a @ [''oxidate.icns'']) fs2 = (Some e3, fs3)"
  from png iconset icns have "seq (write_png base (assets_dir a @ [''oxidate.png'']))
           (seq (write_iconset base (assets_dir a @ [''oxidate.iconset'']))
              (build_icns iconutil (assets_dir a @ [''oxidate.iconset''])
                 (assets_dir a @ [''oxidate.icns'']))) fs = (Some e3, fs3)"
    by (simp add: seq_def)
  from main_unfold[OF render this] show run: "main iconutil a fs = (Some e3, fs3, [])" by simp
  from main_keeps_png[OF render png, of iconutil] run
  show "fs3 (assets_dir a @ [''oxidate.png'']) = Some (File (PNG base))" by simp
  have d: "assets_dir a @ [''oxidate.iconset''] \<noteq> []" by simp
  from write_iconset_success(1)[OF iconset d]
  have "fs2 (assets_dir a @ [''oxidate.iconset'']) = Some Dir" .
  with build_icns_frame[OF icns, of "assets_dir a @ [''oxidate.iconset'']"]
  show "fs3 (assets_dir a @ [''oxidate.iconset'']) = Some Dir" by simp
  show "\<forall>(n, px)\<in>set sizes.
          fs3 (assets_dir a @ [''oxidate.iconset''] @ [n]) = Some (File (PNG (resized base px)))"
  proof (intro ballI, clarify)
    fix n px assume mem: "(n, px) \<in> set sizes"
    with write_iconset_success(2)[OF iconset d]
    have "fs2 ((assets_dir a @ [''oxidate.iconset'']) @ [n]) = Some (File (PNG (resized base px)))"
      by blast
    with build_icns_frame[OF icns, of "(assets_dir a @ [''oxidate.iconset'']) @ [n]"]
    show "fs3 (assets_dir a @ [''oxidate.iconset''] @ [n]) = Some (File (PNG (resized base px)))"
      by simp
  qed
qed

theorem packaging_failure_keeps_outputs_witness:
  "\<exists>base fs1 fs2 fs3.
     render_icon 16 (clamped_supersample \<lparr>assets_dir = [''assets''], base_size = 16, supersample = 0\<rparr>)
       = Inr base
     \<and> write_png base [''assets'', ''oxidate.png''] Map.empty = (None, fs1)
     \<and> write_iconset base [''assets'', ''oxidate.iconset''] fs1 = (None, fs2)
     \<and> build_icns (\<lambda>fs src dst. NotStarted) [''assets'', ''oxidate.iconset'']
          [''assets'', ''oxidate.icns''] fs2 = (Some FileNotFoundError, fs3)
     \<and> main (\<lambda>fs src dst. NotStarted)
          \<lparr>assets_dir = [''assets''], base_size = 16, supersample = 0\<rparr> Map.empty
          = (Some FileNotFoundError, fs3, [])
     \<and> fs3 [''assets'', ''oxidate.png''] = Some (File (PNG base))
     \<and> fs3 [''assets'', ''oxidate.iconset''] = Some Dir
     \<and> fs3 [''assets'', ''oxidate.iconset'', ''icon_16x16.png''] = Some (File (PNG (resized base 16)))"
proof -
  let ?a = "\<lparr>assets_dir = [''assets''], base_size = 16, supersample = 0\<rparr>"
  let ?tool = "\<lambda>(fs::filesystem) (src::path) (dst::path). NotStarted"
  from sample_run[of ?a ?tool NotStarted] obtain base fs1 fs2 where
    render: "render_icon (base_size ?a) (clamped_supersample ?a) = Inr base"
    and png: "write_png base (assets_dir ?a @ [''oxidate.png'']) Map.empty = (None, fs1)"
    and iconset: "write_iconset base (assets_dir ?a @ [''oxidate.iconset'']) fs1 = (None, fs2)"
    and icns0: "build_icns ?tool (assets_dir ?a @ [''oxidate.iconset'']) (assets_dir ?a @ [''oxidate.icns'']) fs2
               = subprocess_run ?tool (assets_dir ?a @ [''oxidate.iconset''])
                   (assets_dir ?a @ [''oxidate.icns'']) fs2"
    by auto
  from icns0 have icns: "build_icns ?tool (assets_dir ?a @ [''oxidate.iconset''])
                 (assets_dir ?a @ [''oxidate.icns'']) fs2 = (Some FileNotFoundError, fs2)"
    by (simp add: subprocess_run_def)
  from packaging_failure_keeps_outputs[of ?a e0 ?tool Map.empty base e1 fs1 e2 fs2 FileNotFoundError fs2]
    render png iconset icns
  have run: "main ?tool ?a Map.empty = (Some FileNotFoundError, fs2, [])"
    and p: "fs2 (assets_dir ?a @ [''oxidate.png'']) = Some (File (PNG base))"
    and d: "fs2 (assets_dir ?a @ [''oxidate.iconset'']) = Some Dir"
    and all: "\<forall>(n, px)\<in>set sizes.
            fs2 (assets_dir ?a @ [''oxidate.iconset''] @ [n]) = Some (File (PNG (resized base px)))"
    by blast+
  have "(''icon_16x16.png'', 16) \<in> set sizes" by (simp add: sizes_def)
  with all have one: "fs2 (assets_dir ?a @ [''oxidate.iconset''] @ [''icon_16x16.png''])
                       = Some (File (PNG (resized base 16)))" by blast
  show ?thesis
    apply (rule exI[of _ base])
    apply (rule exI[of _ fs1])
    apply (rule exI[of _ fs2])
    apply (rule exI[of _ fs2])
    using render png iconset icns run p d one
    apply simp
    done
qed

text \<open>
  C5, as stated, fails in its "only if": with the utility missing from the host,
  \<^verbatim>\<open>build_icns\<close> raises (\<^verbatim>\<open>FileNotFoundError\<close> from \<^verbatim>\<open>subprocess.run\<close>) although no process
  ran and so none exited with a non-zero status.
\<close>

theorem build_icns_raises_without_exit_status:
  "fst (build_icns (\<lambda>fs src dst. NotStarted) [''assets'', ''oxidate.iconset'']
          [''assets'', ''oxidate.icns''] Map.empty) = Some FileNotFoundError
   \<and> \<not> exited_nonzero ((\<lambda>fs src dst. NotStarted)
          (snd (mkdir (parent [''assets'', ''oxidate.icns'']) Map.empty))
          [''assets'', ''oxidate.iconset''] [''assets'', ''oxidate.icns''])"
  by (simp add: build_icns_def seq_def mkdir_def parent_def node_at_def subprocess_run_def
        exited_nonzero_def)

text \<open>
  C5, amended: \<^verbatim>\<open>build_icns\<close> raises exactly when the parent directory of the destination
  cannot be created, or the utility cannot be started, or it exits with a non-zero status
  (then with \<^verbatim>\<open>CalledProcessError\<close>).  Inside \<^verbatim>\<open>main\<close>, once \<^verbatim>\<open>oxidate.png\<close> and the iconset
  are written, the directory exists, so packaging raises exactly when the utility cannot be
  started or exits non-zero.  The exception is not caught: \<^verbatim>\<open>main\<close> ends with it, prints
  nothing and the exit status is 1; otherwise \<^verbatim>\<open>main\<close> prints the two paths and the exit
  status is 0.
\<close>

theorem packaging_error_propagates:
  assumes render: "render_icon (base_size a) (clamped_supersample a) = Inr base"
    and png: "write_png base (assets_dir a @ [''oxidate.png'']) fs = (None, fs1)"
    and iconset: "write_iconset base (assets_dir a @ [''oxidate.iconset'']) fs1 = (None, fs2)"
  shows "(fst (build_icns iconutil d p fs0) \<noteq> None \<longleftrightarrow>
            fst (mkdir (parent p) fs0) \<noteq> None
            \<or> launch_failed (iconutil (snd (mkdir (parent p) fs0)) d p))
       \<and> (fst (mkdir (parent p) fs0) = None \<longrightarrow>
            iconutil (snd (mkdir (parent p) fs0)) d p = Exited rc out \<longrightarrow> rc \<noteq> 0 \<longrightarrow>
            fst (build_icns iconutil d p fs0) = Some (CalledProcessError rc))
       \<and> (fst (build_icns iconutil (assets_dir a @ [''oxidate.iconset''])
                  (assets_dir a @ [''oxidate.icns'']) fs2) \<noteq> None \<longleftrightarrow>
            launch_failed (iconutil fs2 (assets_dir a @ [''oxidate.iconset''])
                             (assets_dir a @ [''oxidate.icns''])))
       \<and> (build_icns iconutil (assets_dir a @ [''oxidate.iconset''])
             (assets_dir a @ [''oxidate.icns'']) fs2 = (Some e, fs3) \<longrightarrow>
            main iconutil a fs = (Some e, fs3, [])
            \<and> exit_status (fst (main iconutil a fs)) = 1)
       \<and> (build_icns iconutil (assets_dir a @ [''oxidate.iconset''])
             (assets_dir a @ [''oxidate.icns'']) fs2 = (None, fs3) \<longrightarrow>
            main iconutil a fs =
              (None, fs3, [''wrote '' @ path_str (assets_dir a @ [''oxidate.png'']),
                           ''wrote '' @ path_str (assets_dir a @ [''oxidate.icns''])])
            \<and> exit_status (fst (main iconutil a fs)) = 0)"
proof (intro conjI impI)
  show "fst (build_icns iconutil d p fs0) \<noteq> None \<longleftrightarrow>
            fst (mkdir (parent p) fs0) \<noteq> None
            \<or> launch_failed (iconutil (snd (mkdir (parent p) fs0)) d p)"
    by (rule build_icns_raises)
next
  assume "fst (mkdir (parent p) fs0) = None"
    and "iconutil (snd (mkdir (parent p) fs0)) d p = Exited rc out" and "rc \<noteq> 0"
  then show "fst (build_icns iconutil d p fs0) = Some (CalledProcessError rc)"
    by (cases "mkdir (parent p) fs0") (simp add: build_icns_def seq_def subprocess_run_def)
next
  show "fst (build_icns iconutil (assets_dir a @ [''oxidate.iconset''])
                  (assets_dir a @ [''oxidate.icns'']) fs2) \<noteq> None \<longleftrightarrow>
            launch_failed (iconutil fs2 (assets_dir a @ [''oxidate.iconset''])
                             (assets_dir a @ [''oxidate.icns'']))"
    by (simp only: build_icns_in_main[OF png iconset] subprocess_run_raises)
next
  assume icns: "build_icns iconutil (assets_dir a @ [''oxidate.iconset''])
             (assets_dir a @ [''oxidate.icns'']) fs2 = (Some e, fs3)"
  from png iconset icns have "seq (write_png base (assets_dir a @ [''oxidate.png'']))
           (seq (write_iconset base (assets_dir a @ [''oxidate.iconset'']))
              (build_icns iconutil (assets_dir a @ [''oxidate.iconset''])
                 (assets_dir a @ [''oxidate.icns'']))) fs = (Some e, fs3)"
    by (simp add: seq_def)
  from main_unfold[OF render this] show run: "main iconutil a fs = (Some e, fs3, [])" by simp
  then show "exit_status (fst (main iconutil a fs)) = 1" by (simp add: exit_status_def)
next
  assume icns: "build_icns iconutil (assets_dir a @ [''oxidate.iconset''])
             (assets_dir a @ [''oxidate.icns'']) fs2 = (None, fs3)"
  from png iconset icns have "seq (write_png base (assets_dir a @ [''oxidate.png'']))
           (seq (write_iconset base (assets_dir a @ [''oxidate.iconset'']))
              (build_icns iconutil (assets_dir a @ [''oxidate.iconset''])
                 (assets_dir a @ [''oxidate.icns'']))) fs = (None, fs3)"
    by (simp add: seq_def)
  from main_unfold[OF render this]
  show run: "main iconutil a fs =
              (None, fs3, [''wrote '' @ path_str (assets_dir a @ [''oxidate.png'']),
                           ''wrote '' @ path_str (assets_dir a @ [''oxidate.icns''])])" by simp
  then show "exit_status (fst (main iconutil a fs)) = 0" by (simp add: exit_status_def)
qed

theorem packaging_error_propagates_witness:
  "\<exists>base fs1 fs2 fs3.
     render_icon 16 (clamped_supersample \<lparr>assets_dir = [''assets''], base_size = 16, supersample = 0\<rparr>)
       = Inr base
     \<and> write_png base [''assets'', ''oxidate.png''] Map.empty = (None, fs1)
     \<and> write_iconset base [''assets'', ''oxidate.iconset''] fs1 = (None, fs2)
     \<and> build_icns (\<lambda>fs src dst. Exited 1 None) [''assets'', ''oxidate.iconset'']
          [''assets'', ''oxidate.icns''] fs2 = (Some (CalledProcessError 1), fs3)
     \<and> main (\<lambda>fs src dst. Exited 1 None)
          \<lparr>assets_dir = [''assets''], base_size = 16, supersample = 0\<rparr> Map.empty
          = (Some (CalledProcessError 1), fs3, [])
     \<and> exit_status (fst (main (\<lambda>fs src dst. Exited 1 None)
          \<lparr>assets_dir = [''assets''], base_size = 16, supersample = 0\<rparr> Map.empty)) = 1"
proof -
  let ?a = "\<lparr>assets_dir = [''assets''], base_size = 16, supersample = 0\<rparr>"
  let ?tool = "\<lambda>(fs::filesystem) (src::path) (dst::path). Exited 1 None"
  from sample_run[of ?a ?tool "Exited 1 None"] obtain base fs1 fs2 where
    render: "render_icon (base_size ?a) (clamped_supersample ?a) = Inr base"
    and png: "write_png base (assets_dir ?a @ [''oxidate.png'']) Map.empty = (None, fs1)"
    and iconset: "write_iconset base (assets_dir ?a @ [''oxidate.iconset'']) fs1 = (None, fs2)"
    and icns0: "build_icns ?tool (assets_dir ?a @ [''oxidate.iconset'']) (assets_dir ?a @ [''oxidate.icns'']) fs2
               = subprocess_run ?tool (assets_dir ?a @ [''oxidate.iconset''])
                   (assets_dir ?a @ [''oxidate.icns'']) fs2"
    by auto
  from icns0 have icns: "build_icns ?tool (assets_dir ?a @ [''oxidate.iconset''])
                 (assets_dir ?a @ [''oxidate.icns'']) fs2 = (Some (CalledProcessError 1), fs2)"
    by (simp add: subprocess_run_def)
  from packaging_error_propagates[OF render png iconset, of ?tool d p fs0 rc out "CalledProcessError 1" fs2]
    icns
  have run: "main ?tool ?a Map.empty = (Some (CalledProcessError 1), fs2, [])"
    and ex: "exit_status (fst (main ?tool ?a Map.empty)) = 1"
    by blast+
  show ?thesis
    apply (rule exI[of _ base])
    apply (rule exI[of _ fs1])
    apply (rule exI[of _ fs2])
    apply (rule exI[of _ fs2])
    using render png iconset icns run ex
    apply simp
    done
qed

text \<open>
  C7, as stated, fails in its last part: the clamp keeps \<^verbatim>\<open>supersample\<close> at 1 or more, but
  \<^verbatim>\<open>--base-size\<close> is not clamped, and with \<^verbatim>\<open>--base-size 0\<close> the working canvas is created with
  size 0 by 0.
\<close>

theorem zero_size_canvas_reached:
  "working_size (base_size \<lparr>assets_dir = [''assets''], base_size = 0, supersample = 4\<rparr>)
     (clamped_supersample \<lparr>assets_dir = [''assets''], base_size = 0, supersample = 4\<rparr>) = 0
   \<and> image_new RGBA (0, 0) (Color BG) = Inr (New RGBA 0 0 (Color BG))"
  by (simp add: working_size_def image_new_def)

text \<open>
  C7, amended: for every value of \<^verbatim>\<open>--supersample\<close>, zero and negative ones included, \<^verbatim>\<open>main\<close>
  calls the renderer with \<open>max 1 supersample\<close>, which is at least 1 (a run with the flag
  below 1 is the run with the flag at 1); the working canvas then has a side of at least
  one pixel whenever \<^verbatim>\<open>--base-size\<close> is at least 1.
\<close>

theorem supersample_clamped:
  "1 \<le> clamped_supersample a
   \<and> clamped_supersample a = max 1 (supersample a)
   \<and> main iconutil a fs = main iconutil (a\<lparr>supersample := clamped_supersample a\<rparr>) fs
   \<and> (1 \<le> base_size a \<longrightarrow> 1 \<le> working_size (base_size a) (clamped_supersample a))"
proof (intro conjI impI)
  show "1 \<le> clamped_supersample a" by (simp add: clamped_supersample_def)
  show "clamped_supersample a = max 1 (supersample a)" by (simp add: clamped_supersample_def)
  show "main iconutil a fs = main iconutil (a\<lparr>supersample := clamped_supersample a\<rparr>) fs"
    by (simp add: main_def clamped_supersample_def)
  assume "1 \<le> base_size a"
  moreover have "1 \<le> clamped_supersample a" by (simp add: clamped_supersample_def)
  ultimately have "1 * 1 \<le> base_size a * clamped_supersample a" by (intro mult_mono) simp_all
  then show "1 \<le> working_size (base_size a) (clamped_supersample a)"
    by (simp add: working_size_def)
qed

theorem supersample_clamped_witness:
  "1 \<le> clamped_supersample \<lparr>assets_dir = [''assets''], base_size = 1024, supersample = - 3\<rparr>
   \<and> 1 \<le> base_size \<lparr>assets_dir = [''assets''], base_size = 1024, supersample = - 3\<rparr>
   \<and> 1 \<le> working_size (base_size \<lparr>assets_dir = [''assets''], base_size = 1024, supersample = - 3\<rparr>)
            (clamped_supersample \<lparr>assets_dir = [''assets''], base_size = 1024, supersample = - 3\<rparr>)"
proof -
  let ?a = "\<lparr>assets_dir = [''assets''], base_size = 1024, supersample = - 3\<rparr>"
  have h: "1 \<le> base_size ?a" by simp
  from supersample_clamped[of ?a] h
  have c: "1 \<le> clamped_supersample ?a"
    and w: "1 \<le> working_size (base_size ?a) (clamped_supersample ?a)"
    by blast+
  from c h w show ?thesis by (intro conjI)
qed

end
